theory Spec2Isabelle
  imports Main "HOL-Library.Word" "HOL-Library.Signed_Division"
begin

unbundle bit_operations_syntax

section \<open>Basic types\<close>

text \<open>
  Go's \<open>byte\<close> is an 8-bit word, \<open>int64\<close> (and \<open>int\<close> on the 64-bit targets the
  server is built for) a 64-bit word read as two's complement with \<open>sint\<close>; \<open>+\<close> and
  \<open>-\<close> on words wrap around exactly as Go's do.  A byte slice is a list of bytes; where
  the code distinguishes a \<open>nil\<close> slice from an empty one the model uses an option.
\<close>

type_synonym byte = "8 word"
type_synonym bytes = "byte list"
type_synonym int64 = "64 word"

section \<open>Memory tracker (package secure)\<close>

datatype mem_error = ErrMemoryLimitExceeded | ErrInvalidMemoryLimit

definition DefaultMemoryLimit :: int64 where
  "DefaultMemoryLimit = 512 * 1024 * 1024"

definition MinMemoryLimit :: int64 where
  "MinMemoryLimit = 1 * 1024 * 1024"

record MemoryTracker =
  allocated :: int64
  limit :: int64

definition NewMemoryTracker :: "int64 \<Rightarrow> mem_error + MemoryTracker" where
  "NewMemoryTracker lim =
     (let lim' = (if lim = 0 then DefaultMemoryLimit else lim)
      in if sint lim' < sint MinMemoryLimit then Inl ErrInvalidMemoryLimit
         else Inr \<lparr>allocated = 0, limit = lim'\<rparr>)"

text \<open>\<open>Allocate\<close> returns the error (\<open>None\<close> is Go's \<open>nil\<close>) and the tracker after the call.\<close>

definition Allocate :: "MemoryTracker \<Rightarrow> int64 \<Rightarrow> mem_error option \<times> MemoryTracker" where
  "Allocate m sz =
     (if sint sz \<le> 0 then (None, m)
      else if sint (allocated m + sz) > sint (limit m) then (Some ErrMemoryLimitExceeded, m)
      else (None, m\<lparr>allocated := allocated m + sz\<rparr>))"

definition Free :: "MemoryTracker \<Rightarrow> int64 \<Rightarrow> MemoryTracker" where
  "Free m sz =
     (if sint sz \<le> 0 then m
      else let a = allocated m - sz
           in if sint a < 0 then m\<lparr>allocated := 0\<rparr> else m\<lparr>allocated := a\<rparr>)"

definition Allocated :: "MemoryTracker \<Rightarrow> int64" where
  "Allocated m = allocated m"

definition Available :: "MemoryTracker \<Rightarrow> int64" where
  "Available m = limit m - allocated m"

definition Reset :: "MemoryTracker \<Rightarrow> MemoryTracker" where
  "Reset m = m\<lparr>allocated := 0\<rparr>"

text \<open>A finite sequence of \<open>Allocate\<close> and \<open>Free\<close> calls, run in order; the error results
  are collected, the tracker is threaded through.\<close>

datatype tracker_call = CallAllocate int64 | CallFree int64

fun tracker_step :: "MemoryTracker \<Rightarrow> tracker_call \<Rightarrow> MemoryTracker" where
  "tracker_step m (CallAllocate n) = snd (Allocate m n)"
| "tracker_step m (CallFree n) = Free m n"

fun tracker_run :: "MemoryTracker \<Rightarrow> tracker_call list \<Rightarrow> MemoryTracker" where
  "tracker_run m [] = m"
| "tracker_run m (c # cs) = tracker_run (tracker_step m c) cs"

text \<open>The invariant of the tracker: \<open>0 \<le> allocated \<le> limit\<close>, read as signed values.\<close>

definition tracker_ok :: "MemoryTracker \<Rightarrow> bool" where
  "tracker_ok m \<longleftrightarrow> 0 \<le> sint (allocated m) \<and> sint (allocated m) \<le> sint (limit m)"

text \<open>A call whose 64-bit sum \<open>allocated + size\<close> does not wrap around, and a sequence of
  calls none of which wraps in the state it is made in.\<close>

definition no_wrap :: "MemoryTracker \<Rightarrow> int64 \<Rightarrow> bool" where
  "no_wrap m n \<longleftrightarrow> sint (allocated m) + sint n < 2 ^ 63"

fun run_no_wrap :: "MemoryTracker \<Rightarrow> tracker_call list \<Rightarrow> bool" where
  "run_no_wrap m [] = True"
| "run_no_wrap m (CallAllocate n # cs) = (no_wrap m n \<and> run_no_wrap (snd (Allocate m n)) cs)"
| "run_no_wrap m (CallFree n # cs) = run_no_wrap (Free m n) cs"

section \<open>Randomness\<close>

text \<open>
  Every read from \<open>crypto/rand\<close> is an input of the model: \<open>None\<close> when the reader
  returns an error, \<open>Some bs\<close> when it delivers the bytes \<open>bs\<close>.  \<open>io.ReadFull\<close> into a
  buffer of \<open>n\<close> bytes fails on an error and on a short read, and otherwise fills the
  buffer with exactly \<open>n\<close> bytes.
\<close>

type_synonym rand_result = "bytes option"

definition ReadFull :: "rand_result \<Rightarrow> nat \<Rightarrow> bytes option" where
  "ReadFull r n =
     (case r of
        None \<Rightarrow> None
      | Some bs \<Rightarrow> if length bs < n then None else Some (take n bs))"

section \<open>ObfuscatedBuffer (package secure)\<close>

datatype buf_error =
    ErrBufferNil | ErrBufferEmpty | ErrBufferTooLarge | ErrRandom
  | ErrObfuscatedDestroyed | ErrScatteredDestroyed | ErrFortifiedDestroyed
  | IndexPanic

definition MaxBufferSize :: nat where
  "MaxBufferSize = 100 * 1024 * 1024"

text \<open>Durations are nanosecond counts.\<close>

definition DefaultRotationInterval :: int where
  "DefaultRotationInterval = 100 * 1000000"

record ObfuscatedBuffer =
  ob_data :: bytes
  ob_pad :: bytes
  ob_size :: nat
  ob_interval :: int
  ob_destroyed :: bool

text \<open>The loop \<open>for i := 0; i < size; i++ { xored[i] = data[i] ^ pad[i] }\<close> into a fresh
  slice of \<open>size\<close> bytes.\<close>

definition xor_into :: "nat \<Rightarrow> bytes \<Rightarrow> bytes \<Rightarrow> bytes" where
  "xor_into n a b = map (\<lambda>i. (a ! i) XOR (b ! i)) [0..<n]"

text \<open>
  The source slice is shredded after the copy; the buffer holds its own slices, so
  the wipe of the caller's slice does not reach it and is not part of the value returned.
\<close>

definition NewObfuscatedBufferWithInterval ::
  "bytes option \<Rightarrow> int \<Rightarrow> rand_result \<Rightarrow> buf_error + ObfuscatedBuffer" where
  "NewObfuscatedBufferWithInterval data interval r =
     (case data of
        None \<Rightarrow> Inl ErrBufferNil
      | Some d \<Rightarrow>
          if length d = 0 then Inl ErrBufferEmpty
          else if length d > MaxBufferSize then Inl ErrBufferTooLarge
          else
            let interval' = (if interval \<le> 0 then DefaultRotationInterval else interval);
                sz = length d
            in case ReadFull r sz of
                 None \<Rightarrow> Inl ErrRandom
               | Some pad \<Rightarrow>
                   Inr \<lparr>ob_data = xor_into sz d pad, ob_pad = pad, ob_size = sz,
                        ob_interval = interval', ob_destroyed = False\<rparr>)"

definition NewObfuscatedBuffer :: "bytes option \<Rightarrow> rand_result \<Rightarrow> buf_error + ObfuscatedBuffer" where
  "NewObfuscatedBuffer data r = NewObfuscatedBufferWithInterval data DefaultRotationInterval r"

text \<open>
  One tick of \<open>rotateLoop\<close>.  The loop body rewrites \<open>data[i]\<close> in place for
  \<open>i = 0, \<dots>, size - 1\<close>; an index beyond one of the slices would panic.
\<close>

definition rotate :: "ObfuscatedBuffer \<Rightarrow> rand_result \<Rightarrow> buf_error + ObfuscatedBuffer" where
  "rotate ob r =
     (if ob_destroyed ob then Inr ob
      else case ReadFull r (ob_size ob) of
             None \<Rightarrow> Inr ob
           | Some newPad \<Rightarrow>
               if ob_size ob \<le> length (ob_data ob) \<and> ob_size ob \<le> length (ob_pad ob)
               then Inr (ob\<lparr>ob_data :=
                              foldl (\<lambda>d i. d[i := ((d ! i) XOR (ob_pad ob ! i)) XOR (newPad ! i)])
                                (ob_data ob) [0..<ob_size ob],
                            ob_pad := newPad\<rparr>)
               else Inl IndexPanic)"

fun rotations :: "ObfuscatedBuffer \<Rightarrow> rand_result list \<Rightarrow> buf_error + ObfuscatedBuffer" where
  "rotations ob [] = Inr ob"
| "rotations ob (r # rs) =
     (case rotate ob r of Inl e \<Rightarrow> Inl e | Inr ob' \<Rightarrow> rotations ob' rs)"

definition ob_Read :: "ObfuscatedBuffer \<Rightarrow> buf_error + bytes" where
  "ob_Read ob =
     (if ob_destroyed ob then Inl ErrObfuscatedDestroyed
      else if ob_size ob \<le> length (ob_data ob) \<and> ob_size ob \<le> length (ob_pad ob)
           then Inr (xor_into (ob_size ob) (ob_data ob) (ob_pad ob))
           else Inl IndexPanic)"

definition ob_Size :: "ObfuscatedBuffer \<Rightarrow> nat" where
  "ob_Size ob = (if ob_destroyed ob then 0 else ob_size ob)"

definition ob_Destroy :: "ObfuscatedBuffer \<Rightarrow> ObfuscatedBuffer" where
  "ob_Destroy ob =
     (if ob_destroyed ob then ob
      else ob\<lparr>ob_data := [], ob_pad := [], ob_size := 0, ob_destroyed := True\<rparr>)"


text \<open>What the buffer stands for: not destroyed, all three lengths equal to the length
  of \<open>x\<close>, and \<open>data XOR pad = x\<close>.\<close>

definition ob_holds :: "ObfuscatedBuffer \<Rightarrow> bytes \<Rightarrow> bool" where
  "ob_holds ob x \<longleftrightarrow>
     \<not> ob_destroyed ob \<and> ob_size ob = length x
     \<and> length (ob_data ob) = length x \<and> length (ob_pad ob) = length x
     \<and> xor_into (length x) (ob_data ob) (ob_pad ob) = x"

section \<open>ScatteredBuffer (package secure)\<close>

definition DefaultChunkSize :: int where
  "DefaultChunkSize = 256"

text \<open>Go's \<open>int\<close> is 64 bits wide here: sums and differences wrap around, and \<open>/\<close>
  truncates towards zero (\<open>sdiv\<close> on \<open>int\<close>).\<close>

definition wrap64 :: "int \<Rightarrow> int" where
  "wrap64 k = signed_take_bit 63 k"

text \<open>
  The chunk size and chunk count computed at the start of
  \<open>NewScatteredBufferWithChunkSize\<close> and, with the same statements, of
  \<open>initScatterObfuscate\<close>: the requested chunk size (default 256 when not positive), the
  count \<open>(totalSize + chunkSize - 1) / chunkSize\<close>, and, when that count is below 4, the
  chunk size \<open>(totalSize + 3) / 4\<close> (at least 1) with the count computed again.
\<close>

definition chunk_layout :: "nat \<Rightarrow> int64 \<Rightarrow> int \<times> int" where
  "chunk_layout totalSize chunkSize0 =
     (let chunkSize = (if sint chunkSize0 \<le> 0 then DefaultChunkSize else sint chunkSize0);
          numChunks = wrap64 (wrap64 (int totalSize + chunkSize) - 1) sdiv chunkSize
      in if numChunks < 4 then
           let cs4 = wrap64 (int totalSize + 3) sdiv 4;
               chunkSize' = (if cs4 < 1 then 1 else cs4)
           in (chunkSize', wrap64 (wrap64 (int totalSize + chunkSize') - 1) sdiv chunkSize')
         else (chunkSize, numChunks))"

text \<open>\<open>binary.LittleEndian.Uint64\<close> of the eight bytes read.\<close>

definition le_uint64 :: "bytes \<Rightarrow> 64 word" where
  "le_uint64 bs = foldr (\<lambda>b acc. ucast b + 256 * acc) (take 8 bs) 0"

text \<open>
  \<open>shuffleOrder\<close>: the loop \<open>for i := n - 1; i > 0; i--\<close>; \<open>rnd i\<close> is the outcome of the
  read of eight random bytes in iteration \<open>i\<close>.  On a failed read \<open>j = i / 2\<close>, otherwise
  \<open>j = uint64 % (i + 1)\<close>; then \<open>order[i]\<close> and \<open>order[j]\<close> are exchanged.
\<close>

fun shuffle_loop :: "nat \<Rightarrow> (nat \<Rightarrow> rand_result) \<Rightarrow> nat list \<Rightarrow> nat list" where
  "shuffle_loop 0 rnd order = order"
| "shuffle_loop (Suc i) rnd order =
     (let j = (case ReadFull (rnd (Suc i)) 8 of
                 None \<Rightarrow> Suc i div 2
               | Some jBytes \<Rightarrow> unat (le_uint64 jBytes) mod (Suc i + 1))
      in shuffle_loop i rnd (order[Suc i := order ! j, j := order ! Suc i]))"

definition shuffleOrder :: "(nat \<Rightarrow> rand_result) \<Rightarrow> nat list \<Rightarrow> nat list" where
  "shuffleOrder rnd order = shuffle_loop (length order - 1) rnd order"

text \<open>\<open>data[start:end]\<close>, copied.\<close>

definition slice :: "bytes \<Rightarrow> nat \<Rightarrow> nat \<Rightarrow> bytes" where
  "slice d start end = take (end - start) (drop start d)"

text \<open>The bytes cut out for the chunk of original position \<open>origPos\<close>: empty when the
  position starts beyond the data.\<close>

definition chunk_at :: "bytes \<Rightarrow> nat \<Rightarrow> nat \<Rightarrow> bytes" where
  "chunk_at d chunkSize origPos =
     (let totalSize = length d;
          start = origPos * chunkSize;
          end0 = start + chunkSize;
          end = (if end0 > totalSize then totalSize else end0)
      in if start \<ge> totalSize then [] else slice d start end)"

record ScatteredBuffer =
  sb_chunks :: "bytes list"
  sb_order :: "nat list"
  sb_chunkSize :: nat
  sb_totalSize :: nat
  sb_destroyed :: bool

definition NewScatteredBufferWithChunkSize ::
  "bytes option \<Rightarrow> int64 \<Rightarrow> (nat \<Rightarrow> rand_result) \<Rightarrow> buf_error + ScatteredBuffer" where
  "NewScatteredBufferWithChunkSize data chunkSize0 rnd =
     (case data of
        None \<Rightarrow> Inl ErrBufferNil
      | Some d \<Rightarrow>
          if length d = 0 then Inl ErrBufferEmpty
          else if length d > MaxBufferSize then Inl ErrBufferTooLarge
          else
            let (chunkSize, numChunks) = chunk_layout (length d) chunkSize0
            in if numChunks < 0 then Inl IndexPanic
               else
                 let order = shuffleOrder rnd [0..<nat numChunks];
                     chunks = map (\<lambda>i. chunk_at d (nat chunkSize) (order ! i)) [0..<nat numChunks]
                 in Inr \<lparr>sb_chunks = chunks, sb_order = order, sb_chunkSize = nat chunkSize,
                         sb_totalSize = length d, sb_destroyed = False\<rparr>)"

definition NewScatteredBuffer :: "bytes option \<Rightarrow> (nat \<Rightarrow> rand_result) \<Rightarrow> buf_error + ScatteredBuffer" where
  "NewScatteredBuffer data rnd = NewScatteredBufferWithChunkSize data (word_of_int DefaultChunkSize) rnd"

text \<open>\<open>copy(result[start:end], src[:end - start])\<close> for \<open>start \<le> end \<le> len(result)\<close>.\<close>

definition copy_into :: "bytes \<Rightarrow> nat \<Rightarrow> nat \<Rightarrow> bytes \<Rightarrow> bytes" where
  "copy_into result start end src =
     take start result @ take (end - start) src @ drop (start + min (end - start) (length src)) result"

text \<open>One iteration of the reassembly loop of \<open>ScatteredBuffer.Read\<close>.\<close>

definition sb_place :: "ScatteredBuffer \<Rightarrow> bytes \<Rightarrow> nat \<Rightarrow> bytes" where
  "sb_place sb result i =
     (if i \<ge> length (sb_chunks sb) then result
      else
        let chunk = sb_chunks sb ! i
        in if length chunk = 0 then result
           else
             let start = (sb_order sb ! i) * sb_chunkSize sb
             in if start \<ge> sb_totalSize sb then result
                else
                  let end0 = start + length chunk;
                      end = (if end0 > sb_totalSize sb then sb_totalSize sb else end0)
                  in copy_into result start end chunk)"

definition sb_Read :: "ScatteredBuffer \<Rightarrow> buf_error + bytes" where
  "sb_Read sb =
     (if sb_destroyed sb then Inl ErrScatteredDestroyed
      else Inr (foldl (sb_place sb) (replicate (sb_totalSize sb) 0) [0..<length (sb_order sb)]))"

definition sb_Size :: "ScatteredBuffer \<Rightarrow> nat" where
  "sb_Size sb = (if sb_destroyed sb then 0 else sb_totalSize sb)"

definition ChunkCount :: "ScatteredBuffer \<Rightarrow> nat" where
  "ChunkCount sb = (if sb_destroyed sb then 0 else length (sb_chunks sb))"

definition sb_Destroy :: "ScatteredBuffer \<Rightarrow> ScatteredBuffer" where
  "sb_Destroy sb =
     (if sb_destroyed sb then sb
      else sb\<lparr>sb_chunks := [], sb_order := [], sb_totalSize := 0, sb_destroyed := True\<rparr>)"


section \<open>FortifiedBuffer (package secure)\<close>

record FortifiedOptions =
  UseObfuscation :: bool
  UseScatter :: bool
  RegisterTripwire :: bool
  RotationInterval :: int
  ChunkSize :: int64

definition DefaultFortifiedOptions :: FortifiedOptions where
  "DefaultFortifiedOptions =
     \<lparr>UseObfuscation = True, UseScatter = True, RegisterTripwire = True,
      RotationInterval = DefaultRotationInterval, ChunkSize = word_of_int DefaultChunkSize\<rparr>"

text \<open>\<open>obfuscatedChunks\<close> is a slice of pointers: \<open>None\<close> is the \<open>nil\<close> slice, and an
  element \<open>None\<close> a \<open>nil\<close> pointer.\<close>

record FortifiedBuffer =
  fb_obfuscatedChunks :: "ObfuscatedBuffer option list option"
  fb_obfuscated :: "ObfuscatedBuffer option"
  fb_scattered :: "ScatteredBuffer option"
  fb_chunkOrder :: "nat list"
  fb_chunkSize :: nat
  fb_totalSize :: nat
  fb_destroyed :: bool
  fb_useObfuscation :: bool
  fb_useScatter :: bool

text \<open>
  The loop of \<open>initScatterObfuscate\<close> that wraps the chunk for each storage index in its
  own \<open>ObfuscatedBuffer\<close>; \<open>pads i\<close> is the outcome of the random read for the pad of
  chunk \<open>i\<close>.  An empty chunk is replaced by the one-byte placeholder \<open>[0]\<close>.  The first
  failure ends the loop with its error (the chunks built so far are destroyed).
\<close>

fun obfuscate_chunks ::
  "bytes \<Rightarrow> nat \<Rightarrow> nat list \<Rightarrow> int \<Rightarrow> (nat \<Rightarrow> rand_result) \<Rightarrow> nat list
     \<Rightarrow> buf_error + ObfuscatedBuffer option list" where
  "obfuscate_chunks d chunkSize order interval pads [] = Inr []"
| "obfuscate_chunks d chunkSize order interval pads (i # is) =
     (let chunkData0 = chunk_at d chunkSize (order ! i);
          chunkData = (if length chunkData0 = 0 then [0] else chunkData0)
      in case NewObfuscatedBufferWithInterval (Some chunkData) interval (pads i) of
           Inl e \<Rightarrow> Inl e
         | Inr ob \<Rightarrow>
             (case obfuscate_chunks d chunkSize order interval pads is of
                Inl e \<Rightarrow> Inl e
              | Inr obs \<Rightarrow> Inr (Some ob # obs)))"

definition initScatterObfuscate ::
  "FortifiedBuffer \<Rightarrow> bytes \<Rightarrow> FortifiedOptions \<Rightarrow> (nat \<Rightarrow> rand_result) \<Rightarrow> (nat \<Rightarrow> rand_result)
     \<Rightarrow> buf_error + FortifiedBuffer" where
  "initScatterObfuscate fb d opts rnd pads =
     (let (chunkSize, numChunks) = chunk_layout (length d) (ChunkSize opts)
      in if numChunks < 0 then Inl IndexPanic
         else
           let order = shuffleOrder rnd [0..<nat numChunks]
           in case obfuscate_chunks d (nat chunkSize) order (RotationInterval opts) pads
                     [0..<nat numChunks] of
                Inl e \<Rightarrow> Inl e
              | Inr obs \<Rightarrow>
                  Inr (fb\<lparr>fb_chunkSize := nat chunkSize, fb_chunkOrder := order,
                          fb_obfuscatedChunks := Some obs\<rparr>))"

text \<open>
  The buffer built by \<open>NewFortifiedBufferWithOptions\<close>.  \<open>rnd\<close> feeds the shuffle and
  \<open>pads\<close> the pads (\<open>pads 0\<close> in the modes with a single \<open>ObfuscatedBuffer\<close>).  When
  \<open>RegisterTripwire\<close> is set the function also registers a callback that destroys the
  buffer on the global tripwire; that effect on the tripwire is \<open>RegisterCallback\<close> below
  and leaves the buffer returned here as it is.
\<close>

definition NewFortifiedBufferWithOptions ::
  "bytes option \<Rightarrow> FortifiedOptions \<Rightarrow> (nat \<Rightarrow> rand_result) \<Rightarrow> (nat \<Rightarrow> rand_result)
     \<Rightarrow> buf_error + FortifiedBuffer" where
  "NewFortifiedBufferWithOptions data opts rnd pads =
     (case data of
        None \<Rightarrow> Inl ErrBufferNil
      | Some d \<Rightarrow>
          if length d = 0 then Inl ErrBufferEmpty
          else if length d > MaxBufferSize then Inl ErrBufferTooLarge
          else
            let fb = \<lparr>fb_obfuscatedChunks = None, fb_obfuscated = None, fb_scattered = None,
                      fb_chunkOrder = [], fb_chunkSize = 0, fb_totalSize = length d,
                      fb_destroyed = False,
                      fb_useObfuscation = UseObfuscation opts, fb_useScatter = UseScatter opts\<rparr>
            in if UseScatter opts \<and> UseObfuscation opts then
                 initScatterObfuscate fb d opts rnd pads
               else if UseObfuscation opts then
                 (case NewObfuscatedBufferWithInterval (Some d) (RotationInterval opts) (pads 0) of
                    Inl e \<Rightarrow> Inl e
                  | Inr ob \<Rightarrow> Inr (fb\<lparr>fb_obfuscated := Some ob\<rparr>))
               else if UseScatter opts then
                 (case NewScatteredBufferWithChunkSize (Some d) (ChunkSize opts) rnd of
                    Inl e \<Rightarrow> Inl e
                  | Inr sb \<Rightarrow> Inr (fb\<lparr>fb_scattered := Some sb\<rparr>))
               else
                 (case NewObfuscatedBufferWithInterval (Some d) (RotationInterval opts) (pads 0) of
                    Inl e \<Rightarrow> Inl e
                  | Inr ob \<Rightarrow> Inr (fb\<lparr>fb_obfuscated := Some ob\<rparr>)))"

definition NewFortifiedBuffer ::
  "bytes option \<Rightarrow> (nat \<Rightarrow> rand_result) \<Rightarrow> (nat \<Rightarrow> rand_result) \<Rightarrow> buf_error + FortifiedBuffer" where
  "NewFortifiedBuffer data rnd pads = NewFortifiedBufferWithOptions data DefaultFortifiedOptions rnd pads"

text \<open>
  One iteration of the loop of \<open>readScatterObfuscate\<close>, for storage index \<open>i\<close> with
  original position \<open>origPos\<close>: a failing chunk read ends the whole read with its error.
\<close>

definition fb_place ::
  "FortifiedBuffer \<Rightarrow> ObfuscatedBuffer option list \<Rightarrow> bytes \<Rightarrow> nat \<Rightarrow> buf_error + bytes" where
  "fb_place fb chunks result i =
     (if i \<ge> length chunks then Inr result
      else case chunks ! i of
             None \<Rightarrow> Inr result
           | Some chunk \<Rightarrow>
               (case ob_Read chunk of
                  Inl e \<Rightarrow> Inl e
                | Inr chunkData \<Rightarrow>
                    let start = (fb_chunkOrder fb ! i) * fb_chunkSize fb
                    in if start \<ge> fb_totalSize fb then Inr result
                       else if length chunkData = 1 \<and> chunkData ! 0 = 0 \<and> start \<ge> fb_totalSize fb
                       then Inr result
                       else
                         let end0 = start + length chunkData;
                             end = (if end0 > fb_totalSize fb then fb_totalSize fb else end0);
                             copyLen = end - start
                         in if copyLen > 0 \<and> copyLen \<le> length chunkData
                            then Inr (copy_into result start end (take copyLen chunkData))
                            else Inr result))"

fun fb_place_all ::
  "FortifiedBuffer \<Rightarrow> ObfuscatedBuffer option list \<Rightarrow> bytes \<Rightarrow> nat list \<Rightarrow> buf_error + bytes" where
  "fb_place_all fb chunks result [] = Inr result"
| "fb_place_all fb chunks result (i # is) =
     (case fb_place fb chunks result i of
        Inl e \<Rightarrow> Inl e
      | Inr result' \<Rightarrow> fb_place_all fb chunks result' is)"

definition readScatterObfuscate :: "FortifiedBuffer \<Rightarrow> ObfuscatedBuffer option list \<Rightarrow> buf_error + bytes" where
  "readScatterObfuscate fb chunks =
     fb_place_all fb chunks (replicate (fb_totalSize fb) 0) [0..<length (fb_chunkOrder fb)]"

definition fb_Read :: "FortifiedBuffer \<Rightarrow> buf_error + bytes" where
  "fb_Read fb =
     (if fb_destroyed fb then Inl ErrFortifiedDestroyed
      else case fb_obfuscatedChunks fb of
             Some chunks \<Rightarrow> readScatterObfuscate fb chunks
           | None \<Rightarrow>
               (case fb_obfuscated fb of
                  Some ob \<Rightarrow> ob_Read ob
                | None \<Rightarrow>
                    (case fb_scattered fb of
                       Some sb \<Rightarrow> sb_Read sb
                     | None \<Rightarrow> Inl ErrFortifiedDestroyed)))"

definition fb_Size :: "FortifiedBuffer \<Rightarrow> nat" where
  "fb_Size fb = (if fb_destroyed fb then 0 else fb_totalSize fb)"

definition fb_Destroy :: "FortifiedBuffer \<Rightarrow> FortifiedBuffer" where
  "fb_Destroy fb =
     (if fb_destroyed fb then fb
      else fb\<lparr>fb_obfuscatedChunks := None, fb_obfuscated := None, fb_scattered := None,
              fb_chunkOrder := [], fb_chunkSize := 0, fb_totalSize := 0, fb_destroyed := True\<rparr>)"


section \<open>Specification predicates for the buffers\<close>

text \<open>
  What reassembly computes, stated over the original input \<open>x\<close>: \<open>placed\<close> writes the
  chunk of original position \<open>og\<close> at its offset, \<open>agrees\<close> says that a partial result
  already equals \<open>x\<close> on every byte whose chunk is in \<open>S\<close>, and the \<open>_holds\<close> predicates
  say that a buffer stores \<open>x\<close> (chunk by chunk, in the shuffled order).
\<close>

definition placed :: "bytes \<Rightarrow> nat \<Rightarrow> bytes \<Rightarrow> nat \<Rightarrow> bytes" where
  "placed x cs r og = copy_into r (og * cs) (min (og * cs + cs) (length x)) (chunk_at x cs og)"

definition agrees :: "bytes \<Rightarrow> nat \<Rightarrow> bytes \<Rightarrow> nat set \<Rightarrow> bool" where
  "agrees x cs r S \<longleftrightarrow> length r = length x \<and> (\<forall>p < length x. p div cs \<in> S \<longrightarrow> r ! p = x ! p)"

definition place_or_skip :: "bytes \<Rightarrow> nat \<Rightarrow> bytes \<Rightarrow> nat \<Rightarrow> bytes" where
  "place_or_skip x cs r og = (if og * cs < length x then placed x cs r og else r)"

definition sb_holds :: "ScatteredBuffer \<Rightarrow> bytes \<Rightarrow> bool" where
  "sb_holds sb x \<longleftrightarrow>
     \<not> sb_destroyed sb \<and> sb_totalSize sb = length x \<and> 0 < sb_chunkSize sb
     \<and> length (sb_chunks sb) = length (sb_order sb)
     \<and> (\<forall>i < length (sb_order sb). sb_chunks sb ! i = chunk_at x (sb_chunkSize sb) (sb_order sb ! i))
     \<and> (\<forall>p < length x. p div sb_chunkSize sb \<in> set (sb_order sb))"

definition chunk_or_placeholder :: "bytes \<Rightarrow> nat \<Rightarrow> nat \<Rightarrow> bytes" where
  "chunk_or_placeholder x cs og = (if length (chunk_at x cs og) = 0 then [0] else chunk_at x cs og)"

definition fb_scatter_holds :: "FortifiedBuffer \<Rightarrow> ObfuscatedBuffer option list \<Rightarrow> bytes \<Rightarrow> bool" where
  "fb_scatter_holds fb chunks x \<longleftrightarrow>
     fb_totalSize fb = length x \<and> 0 < fb_chunkSize fb
     \<and> length chunks = length (fb_chunkOrder fb)
     \<and> (\<forall>i < length (fb_chunkOrder fb). \<exists>ob. chunks ! i = Some ob
            \<and> ob_holds ob (chunk_or_placeholder x (fb_chunkSize fb) (fb_chunkOrder fb ! i)))
     \<and> (\<forall>p < length x. p div fb_chunkSize fb \<in> set (fb_chunkOrder fb))"

section \<open>Tripwire (package secure)\<close>

text \<open>
  Callbacks are opaque values of a type \<open>'cb\<close>; \<open>None\<close> is a \<open>nil\<close> function.  What the
  tripwire does with a callback is recorded as an event: \<open>Invoke c\<close> when the loop of
  \<open>trigger\<close> calls \<open>c\<close>, \<open>Spawn c\<close> for the statement \<open>go fn()\<close>, which starts \<open>c\<close> on a
  goroutine of its own.

  The fields of the struct are guarded by its mutex, so what a method does while it
  holds the mutex is one step.  \<open>trigger\<close> holds it only to set \<open>triggered\<close> and to copy
  the callback list; it calls the copied callbacks after the unlock, one after the other
  and without \<open>recover\<close>.  Two more components of the state follow the goroutines: 
  \<open>tw_watching\<close> says that \<open>watchLoop\<close> is running, and \<open>tw_calling\<close> is the part of the
  copied list that the goroutine inside \<open>trigger\<close> has still to call (at most one goroutine
  gets past the test of \<open>triggered\<close>).  A call either returns, and the loop goes on, or
  it does not (the callback panics, or ends the process as the callback registered by
  the server does with \<open>os.Exit\<close>), and the rest of the list is never called.
\<close>

datatype 'cb tw_event = Invoke 'cb | Spawn 'cb

datatype call_outcome = Returns | NoReturn

definition DefaultTripwireInterval :: int where
  "DefaultTripwireInterval = 50 * 1000000"

record 'cb Tripwire =
  tw_callbacks :: "'cb option list"
  tw_done :: bool
  tw_triggered :: bool
  tw_interval :: int
  tw_started :: bool
  tw_watching :: bool
  tw_calling :: "'cb option list"

definition NewTripwireWithInterval :: "int \<Rightarrow> 'cb Tripwire" where
  "NewTripwireWithInterval interval =
     \<lparr>tw_callbacks = [], tw_done = False, tw_triggered = False,
      tw_interval = (if interval \<le> 0 then DefaultTripwireInterval else interval),
      tw_started = False, tw_watching = False, tw_calling = []\<rparr>"

definition NewTripwire :: "'cb Tripwire" where
  "NewTripwire = NewTripwireWithInterval DefaultTripwireInterval"

definition Start :: "'cb Tripwire \<Rightarrow> 'cb Tripwire" where
  "Start t = (if tw_started t then t else t\<lparr>tw_started := True, tw_watching := True\<rparr>)"

definition RegisterCallback :: "'cb Tripwire \<Rightarrow> 'cb option \<Rightarrow> 'cb Tripwire \<times> 'cb tw_event list" where
  "RegisterCallback t fn =
     (case fn of
        None \<Rightarrow> (t, [])
      | Some c \<Rightarrow>
          if tw_triggered t then (t, [Spawn c])
          else (t\<lparr>tw_callbacks := tw_callbacks t @ [Some c]\<rparr>, []))"

text \<open>The part of \<open>trigger\<close> under the mutex: nothing when already triggered, otherwise
  the flag is set and the callbacks are copied for the loop that follows.\<close>

definition trigger :: "'cb Tripwire \<Rightarrow> 'cb Tripwire" where
  "trigger t =
     (if tw_triggered t then t
      else t\<lparr>tw_triggered := True, tw_calling := tw_callbacks t\<rparr>)"

text \<open>One iteration of the loop \<open>for _, cb := range callbacks { if cb != nil { cb() } }\<close>
  of \<open>trigger\<close>, with the outcome of the call.\<close>

definition call_next :: "'cb Tripwire \<Rightarrow> call_outcome \<Rightarrow> 'cb Tripwire \<times> 'cb tw_event list" where
  "call_next t outcome =
     (case tw_calling t of
        [] \<Rightarrow> (t, [])
      | None # rest \<Rightarrow> (t\<lparr>tw_calling := rest\<rparr>, [])
      | Some c # rest \<Rightarrow>
          (t\<lparr>tw_calling := (case outcome of Returns \<Rightarrow> rest | NoReturn \<Rightarrow> [])\<rparr>, [Invoke c]))"

definition ManualTrigger :: "'cb Tripwire \<Rightarrow> 'cb Tripwire" where
  "ManualTrigger t = trigger t"

definition IsTriggered :: "'cb Tripwire \<Rightarrow> bool" where
  "IsTriggered t = tw_triggered t"

definition Stop :: "'cb Tripwire \<Rightarrow> 'cb Tripwire" where
  "Stop t = (if \<not> tw_started t then t else t\<lparr>tw_done := True\<rparr>)"

text \<open>
  The two branches of the \<open>select\<close> in \<open>watchLoop\<close>: a tick, on which
  \<open>detectIntrusion()\<close> returns \<open>detected\<close> and a positive result calls \<open>trigger\<close> and ends the
  loop, and the closed \<open>done\<close> channel, which ends the loop.
\<close>

definition watch_tick :: "'cb Tripwire \<Rightarrow> bool \<Rightarrow> 'cb Tripwire" where
  "watch_tick t detected =
     (if \<not> tw_watching t then t
      else if detected then (trigger t)\<lparr>tw_watching := False\<rparr>
      else t)"

definition watch_done :: "'cb Tripwire \<Rightarrow> 'cb Tripwire" where
  "watch_done t = (if tw_watching t \<and> tw_done t then t\<lparr>tw_watching := False\<rparr> else t)"

text \<open>The steps of a run, in any interleaving: the methods, the two branches of the
  watcher, and the iterations of the calling loop.\<close>

datatype 'cb tw_op =
    OpRegister "'cb option" | OpManualTrigger | OpStart | OpStop | OpTick bool | OpWatchDone
  | OpCall call_outcome

fun tw_step :: "'cb Tripwire \<Rightarrow> 'cb tw_op \<Rightarrow> 'cb Tripwire \<times> 'cb tw_event list" where
  "tw_step t (OpRegister fn) = RegisterCallback t fn"
| "tw_step t OpManualTrigger = (ManualTrigger t, [])"
| "tw_step t OpStart = (Start t, [])"
| "tw_step t OpStop = (Stop t, [])"
| "tw_step t (OpTick detected) = (watch_tick t detected, [])"
| "tw_step t OpWatchDone = (watch_done t, [])"
| "tw_step t (OpCall outcome) = call_next t outcome"

fun tw_run :: "'cb Tripwire \<Rightarrow> 'cb tw_op list \<Rightarrow> 'cb Tripwire \<times> 'cb tw_event list" where
  "tw_run t [] = (t, [])"
| "tw_run t (x # xs) =
     (case tw_step t x of (t', ev) \<Rightarrow> (case tw_run t' xs of (t'', ev') \<Rightarrow> (t'', ev @ ev')))"






section \<open>Session manager (package store)\<close>

datatype session_error =
    ErrSessionLocked | ErrSessionNotLocked | ErrInvalidPassword | ErrSessionExpired
  | ErrKeyHashNil | ErrTokenGeneration

text \<open>Times are nanosecond counts; \<open>time.Time{}\<close> is 0.  The two callbacks of a session are
  opaque values, recorded in the order in which they are called.\<close>

record 'cb Session =
  s_token :: string
  s_locked :: bool
  s_createdAt :: int
  s_lockedAt :: int
  s_keyHash :: "bytes option"
  s_salt :: "bytes option"
  s_onLock :: "'cb option"
  s_onUnlock :: "'cb option"

record 'cb SessionManager =
  sm_session :: "'cb Session option"

definition NewSessionManager :: "'cb SessionManager" where
  "NewSessionManager = \<lparr>sm_session = None\<rparr>"

text \<open>\<open>gen\<close> is the outcome of \<open>crypto.GenerateSessionTokenString()\<close> (\<open>None\<close> when the random
  source fails), \<open>now\<close> the value of \<open>time.Now()\<close>.\<close>

definition new_session :: "string \<Rightarrow> int \<Rightarrow> 'cb Session" where
  "new_session token now =
     \<lparr>s_token = token, s_locked = False, s_createdAt = now, s_lockedAt = 0,
      s_keyHash = None, s_salt = None, s_onLock = None, s_onUnlock = None\<rparr>"

definition CreateSession ::
  "'cb SessionManager \<Rightarrow> string option \<Rightarrow> int \<Rightarrow> (session_error + string) \<times> 'cb SessionManager" where
  "CreateSession sm gen now =
     (case gen of
        None \<Rightarrow> (Inl ErrTokenGeneration, sm)
      | Some token \<Rightarrow> (Inr token, sm\<lparr>sm_session := Some (new_session token now)\<rparr>))"

definition IsLocked :: "'cb SessionManager \<Rightarrow> bool" where
  "IsLocked sm = (case sm_session sm of None \<Rightarrow> False | Some s \<Rightarrow> s_locked s)"

text \<open>\<open>Lock\<close> reads the clock twice: \<open>now0\<close> when it creates the session, \<open>now\<close> for
  \<open>lockedAt\<close>.  The result is the error, the manager, and the callbacks called.\<close>

definition Lock ::
  "'cb SessionManager \<Rightarrow> bytes \<Rightarrow> bytes \<Rightarrow> string option \<Rightarrow> int \<Rightarrow> int
     \<Rightarrow> session_error option \<times> 'cb SessionManager \<times> 'cb list" where
  "Lock sm keyHash salt gen now0 now =
     (case (case sm_session sm of
              Some s \<Rightarrow> Some s
            | None \<Rightarrow> (case gen of None \<Rightarrow> None | Some token \<Rightarrow> Some (new_session token now0))) of
        None \<Rightarrow> (Some ErrTokenGeneration, sm, [])
      | Some s \<Rightarrow>
          if s_locked s then (Some ErrSessionLocked, sm\<lparr>sm_session := Some s\<rparr>, [])
          else
            let s' = s\<lparr>s_keyHash := Some keyHash, s_salt := Some salt,
                       s_locked := True, s_lockedAt := now\<rparr>
            in (None, sm\<lparr>sm_session := Some s'\<rparr>,
                (case s_onLock s' of None \<Rightarrow> [] | Some f \<Rightarrow> [f])))"

text \<open>\<open>subtle.ConstantTimeCompare\<close>: 0 for different lengths, otherwise the OR of the
  bytewise XORs, compared with zero.\<close>

definition subtle_ConstantTimeCompare :: "bytes \<Rightarrow> bytes \<Rightarrow> int" where
  "subtle_ConstantTimeCompare a b =
     (if length a \<noteq> length b then 0
      else if foldl (\<lambda>v (p, q). v OR (p XOR q)) (0 :: byte) (zip a b) = 0 then 1 else 0)"

definition ConstantTimeCompare :: "bytes \<Rightarrow> bytes \<Rightarrow> bool" where
  "ConstantTimeCompare a b \<longleftrightarrow> subtle_ConstantTimeCompare a b = 1"

text \<open>\<open>VerifyKeyHash\<close> takes read locks only; the manager is returned beside the error so
  that its being unchanged can be stated.\<close>

definition VerifyKeyHash ::
  "'cb SessionManager \<Rightarrow> bytes \<Rightarrow> session_error option \<times> 'cb SessionManager" where
  "VerifyKeyHash sm keyHash =
     (case sm_session sm of
        None \<Rightarrow> (Some ErrSessionNotLocked, sm)
      | Some s \<Rightarrow>
          if \<not> s_locked s then (Some ErrSessionNotLocked, sm)
          else case s_keyHash s of
                 None \<Rightarrow> (Some ErrKeyHashNil, sm)
               | Some h \<Rightarrow>
                   if \<not> ConstantTimeCompare h keyHash then (Some ErrInvalidPassword, sm)
                   else (None, sm))"

definition Unlock :: "'cb SessionManager \<Rightarrow> session_error option \<times> 'cb SessionManager \<times> 'cb list" where
  "Unlock sm =
     (case sm_session sm of
        None \<Rightarrow> (Some ErrSessionNotLocked, sm, [])
      | Some s \<Rightarrow>
          if \<not> s_locked s then (Some ErrSessionNotLocked, sm, [])
          else
            let s' = s\<lparr>s_keyHash := None, s_salt := None, s_locked := False, s_lockedAt := 0\<rparr>
            in (None, sm\<lparr>sm_session := Some s'\<rparr>,
                (case s_onUnlock s' of None \<Rightarrow> [] | Some f \<Rightarrow> [f])))"

text \<open>\<open>ForceUnlock\<close> calls the shred callback first (when it is not \<open>nil\<close>) and fires no
  unlock callback.\<close>

definition ForceUnlock ::
  "'cb SessionManager \<Rightarrow> 'cb option \<Rightarrow> session_error option \<times> 'cb SessionManager \<times> 'cb list" where
  "ForceUnlock sm shredCallback =
     (case sm_session sm of
        None \<Rightarrow> (Some ErrSessionNotLocked, sm, [])
      | Some s \<Rightarrow>
          if \<not> s_locked s then (Some ErrSessionNotLocked, sm, [])
          else
            let s' = s\<lparr>s_keyHash := None, s_salt := None, s_locked := False, s_lockedAt := 0\<rparr>
            in (None, sm\<lparr>sm_session := Some s'\<rparr>,
                (case shredCallback of None \<Rightarrow> [] | Some f \<Rightarrow> [f])))"

definition GetSalt :: "'cb SessionManager \<Rightarrow> bytes option" where
  "GetSalt sm =
     (case sm_session sm of
        None \<Rightarrow> None
      | Some s \<Rightarrow> if \<not> s_locked s then None else s_salt s)"

definition GetToken :: "'cb SessionManager \<Rightarrow> string" where
  "GetToken sm = (case sm_session sm of None \<Rightarrow> [] | Some s \<Rightarrow> s_token s)"

record SessionStatus =
  st_Exists :: bool
  st_Locked :: bool
  st_CreatedAt :: int
  st_LockedAt :: int

definition Status :: "'cb SessionManager \<Rightarrow> SessionStatus" where
  "Status sm =
     (case sm_session sm of
        None \<Rightarrow> \<lparr>st_Exists = False, st_Locked = False, st_CreatedAt = 0, st_LockedAt = 0\<rparr>
      | Some s \<Rightarrow> \<lparr>st_Exists = True, st_Locked = s_locked s,
                    st_CreatedAt = s_createdAt s, st_LockedAt = s_lockedAt s\<rparr>)"

definition SetLockCallback :: "'cb SessionManager \<Rightarrow> 'cb option \<Rightarrow> 'cb SessionManager" where
  "SetLockCallback sm fn =
     (case sm_session sm of
        None \<Rightarrow> sm
      | Some s \<Rightarrow> sm\<lparr>sm_session := Some (s\<lparr>s_onLock := fn\<rparr>)\<rparr>)"

definition SetUnlockCallback :: "'cb SessionManager \<Rightarrow> 'cb option \<Rightarrow> 'cb SessionManager" where
  "SetUnlockCallback sm fn =
     (case sm_session sm of
        None \<Rightarrow> sm
      | Some s \<Rightarrow> sm\<lparr>sm_session := Some (s\<lparr>s_onUnlock := fn\<rparr>)\<rparr>)"

definition sm_Destroy :: "'cb SessionManager \<Rightarrow> 'cb SessionManager" where
  "sm_Destroy sm = sm\<lparr>sm_session := None\<rparr>"

section \<open>File store (package store)\<close>

datatype store_error =
    ErrFileNotFound | ErrFileExpired | ErrFileTooLarge | ErrStorageFull
  | ErrClipboardEmpty | ErrClipboardExpired
  | ErrFilename | ErrFileIDGeneration | ErrBuffer buf_error | ErrMemory mem_error

record StoredFile =
  sf_ID :: string
  sf_data :: "FortifiedBuffer option"
  sf_encrypted :: "bytes option"
  sf_Filename :: string
  sf_MimeType :: string
  sf_Size :: int64
  sf_CreatedAt :: int
  sf_ExpiresAt :: int

text \<open>
  The map \<open>files\<close> is an association list with at most one entry per key; its order
  stands for the order in which Go happens to iterate over the map.  \<open>fs_memory\<close> is
  the tracker the store points to (\<open>None\<close> for a \<open>nil\<close> pointer), in its current state.
\<close>

record FileStore =
  fs_files :: "(string \<times> StoredFile) list"
  fs_maxFileSize :: int64
  fs_expiry :: int
  fs_memory :: "MemoryTracker option"

definition files_put :: "string \<Rightarrow> StoredFile \<Rightarrow> (string \<times> StoredFile) list \<Rightarrow> (string \<times> StoredFile) list" where
  "files_put k v fl = filter (\<lambda>kv. fst kv \<noteq> k) fl @ [(k, v)]"

definition files_delete :: "string \<Rightarrow> (string \<times> StoredFile) list \<Rightarrow> (string \<times> StoredFile) list" where
  "files_delete k fl = filter (\<lambda>kv. fst kv \<noteq> k) fl"

text \<open>\<open>if memory != nil { memory.Allocate(n) }\<close> and \<open>if memory != nil { memory.Free(n) }\<close>.\<close>

definition mem_Allocate :: "MemoryTracker option \<Rightarrow> int64 \<Rightarrow> mem_error option \<times> MemoryTracker option" where
  "mem_Allocate mem n =
     (case mem of
        None \<Rightarrow> (None, None)
      | Some m \<Rightarrow> (case Allocate m n of (e, m') \<Rightarrow> (e, Some m')))"

definition mem_Free :: "MemoryTracker option \<Rightarrow> int64 \<Rightarrow> MemoryTracker option" where
  "mem_Free mem n = (case mem of None \<Rightarrow> None | Some m \<Rightarrow> Some (Free m n))"

text \<open>
  What one call of \<open>Store\<close> takes from outside the store: the validators of package
  \<open>validate\<close> (\<open>env_Filename\<close> is \<open>None\<close> where \<open>validate.Filename\<close> returns an error),
  the outcome of \<open>crypto.GenerateFileID()\<close> (\<open>None\<close> for its error), the clock, and the
  random reads of the buffer constructor.
\<close>

record store_env =
  env_Filename :: "string \<Rightarrow> string option"
  env_MIMETypeOrDefault :: "string \<Rightarrow> string \<Rightarrow> string"
  env_GenerateFileID :: "string option"
  env_now :: int
  env_shuffle :: "nat \<Rightarrow> rand_result"
  env_pads :: "nat \<Rightarrow> rand_result"

definition Store ::
  "FileStore \<Rightarrow> store_env \<Rightarrow> string \<Rightarrow> string \<Rightarrow> bytes option \<Rightarrow> (store_error + string) \<times> FileStore" where
  "Store fs env filename mimeType content =
     (case env_Filename env filename of
        None \<Rightarrow> (Inl ErrFilename, fs)
      | Some filename' \<Rightarrow>
          let mimeType' = env_MIMETypeOrDefault env mimeType ''application/octet-stream'';
              contentLen = (word_of_nat (case content of None \<Rightarrow> 0 | Some d \<Rightarrow> length d) :: int64)
          in if sint contentLen > sint (fs_maxFileSize fs) then (Inl ErrFileTooLarge, fs)
             else case mem_Allocate (fs_memory fs) contentLen of
                    (Some e, mem1) \<Rightarrow> (Inl ErrStorageFull, fs\<lparr>fs_memory := mem1\<rparr>)
                  | (None, mem1) \<Rightarrow>
                      (case env_GenerateFileID env of
                         None \<Rightarrow> (Inl ErrFileIDGeneration, fs\<lparr>fs_memory := mem_Free mem1 contentLen\<rparr>)
                       | Some fid \<Rightarrow>
                           (case NewFortifiedBuffer content (env_shuffle env) (env_pads env) of
                              Inl e \<Rightarrow> (Inl (ErrBuffer e), fs\<lparr>fs_memory := mem_Free mem1 contentLen\<rparr>)
                            | Inr buf \<Rightarrow>
                                let file = \<lparr>sf_ID = fid, sf_data = Some buf, sf_encrypted = None,
                                            sf_Filename = filename', sf_MimeType = mimeType',
                                            sf_Size = word_of_nat (fb_Size buf),
                                            sf_CreatedAt = env_now env,
                                            sf_ExpiresAt = env_now env + fs_expiry fs\<rparr>
                                in (Inr fid, fs\<lparr>fs_memory := mem1,
                                              fs_files := files_put fid file (fs_files fs)\<rparr>))))"

text \<open>\<open>shredFile\<close> frees the recorded size on the tracker and destroys the buffers of the
  file, which is out of the map by then (or about to be); the store after it is returned.\<close>

definition shredFile :: "FileStore \<Rightarrow> StoredFile \<Rightarrow> FileStore" where
  "shredFile fs file = fs\<lparr>fs_memory := mem_Free (fs_memory fs) (sf_Size file)\<rparr>"

text \<open>\<open>vid\<close> is \<open>validate.FileID\<close>: the normalised id, or \<open>None\<close> for its error.\<close>

definition Delete :: "FileStore \<Rightarrow> (string \<Rightarrow> string option) \<Rightarrow> string \<Rightarrow> store_error option \<times> FileStore" where
  "Delete fs vid id0 =
     (case vid id0 of
        None \<Rightarrow> (Some ErrFileNotFound, fs)
      | Some fid \<Rightarrow>
          (case map_of (fs_files fs) fid of
             None \<Rightarrow> (Some ErrFileNotFound, fs)
           | Some file \<Rightarrow>
               (None, shredFile (fs\<lparr>fs_files := files_delete fid (fs_files fs)\<rparr>) file)))"

definition Count :: "FileStore \<Rightarrow> nat" where
  "Count fs = length (fs_files fs)"

text \<open>The loop \<open>for id, file := range fs.files { fs.shredFile(file); delete(fs.files, id) }\<close>.\<close>

definition shred_each :: "FileStore \<Rightarrow> (string \<times> StoredFile) list \<Rightarrow> FileStore" where
  "shred_each fs kvs =
     foldl (\<lambda>fs kv. (shredFile fs (snd kv))\<lparr>fs_files := files_delete (fst kv) (fs_files fs)\<rparr>) fs kvs"

definition fs_ShredAll :: "FileStore \<Rightarrow> nat \<times> FileStore" where
  "fs_ShredAll fs = (length (fs_files fs), shred_each fs (fs_files fs))"

definition fs_cleanupExpired :: "FileStore \<Rightarrow> int \<Rightarrow> FileStore" where
  "fs_cleanupExpired fs now =
     (let expired = map fst (filter (\<lambda>kv. now > sf_ExpiresAt (snd kv)) (fs_files fs))
      in foldl (\<lambda>fs fid. case map_of (fs_files fs) fid of
                            None \<Rightarrow> fs
                          | Some file \<Rightarrow> (shredFile fs file)\<lparr>fs_files := files_delete fid (fs_files fs)\<rparr>)
           fs expired)"

text \<open>\<open>efi_Encrypted\<close> is the result of decoding the base64 field, \<open>None\<close> when it does not
  decode.\<close>

record EncryptedFileInfo =
  efi_ID :: string
  efi_Name :: string
  efi_MimeType :: string
  efi_Size :: int64
  efi_Encrypted :: "bytes option"

definition AddEncryptedFile :: "FileStore \<Rightarrow> EncryptedFileInfo \<Rightarrow> int \<Rightarrow> FileStore" where
  "AddEncryptedFile fs f now =
     (case efi_Encrypted f of
        None \<Rightarrow> fs
      | Some encrypted \<Rightarrow>
          fs\<lparr>fs_files :=
               files_put (efi_ID f)
                 \<lparr>sf_ID = efi_ID f, sf_data = None, sf_encrypted = Some encrypted,
                  sf_Filename = efi_Name f, sf_MimeType = efi_MimeType f, sf_Size = efi_Size f,
                  sf_CreatedAt = now, sf_ExpiresAt = now + fs_expiry fs\<rparr>
                 (fs_files fs)\<rparr>)"

definition SetEncryptedFiles :: "FileStore \<Rightarrow> EncryptedFileInfo list \<Rightarrow> int \<Rightarrow> FileStore" where
  "SetEncryptedFiles fs files now =
     foldl (\<lambda>fs f. AddEncryptedFile fs f now) (shred_each fs (fs_files fs)) files"

section \<open>Clipboard store (package store)\<close>

datatype ClipboardType = ClipboardTypeText | ClipboardTypeImage

record ClipboardEntry =
  ce_data :: "FortifiedBuffer option"
  ce_encrypted :: "bytes option"
  ce_contentType :: ClipboardType
  ce_mimeType :: string
  ce_size :: int64
  ce_createdAt :: int
  ce_expiresAt :: int

record ClipboardStore =
  cs_text :: "ClipboardEntry option"
  cs_image :: "ClipboardEntry option"
  cs_expiry :: int
  cs_memory :: "MemoryTracker option"

definition shredEntry :: "ClipboardStore \<Rightarrow> ClipboardEntry \<Rightarrow> ClipboardStore" where
  "shredEntry cs entry = cs\<lparr>cs_memory := mem_Free (cs_memory cs) (ce_size entry)\<rparr>"

definition DeleteText :: "ClipboardStore \<Rightarrow> ClipboardStore" where
  "DeleteText cs =
     (case cs_text cs of
        None \<Rightarrow> cs
      | Some entry \<Rightarrow> (shredEntry cs entry)\<lparr>cs_text := None\<rparr>)"

definition DeleteImage :: "ClipboardStore \<Rightarrow> ClipboardStore" where
  "DeleteImage cs =
     (case cs_image cs of
        None \<Rightarrow> cs
      | Some entry \<Rightarrow> (shredEntry cs entry)\<lparr>cs_image := None\<rparr>)"

definition cs_ShredAll :: "ClipboardStore \<Rightarrow> ClipboardStore" where
  "cs_ShredAll cs = DeleteImage (DeleteText cs)"

definition cs_cleanupExpired :: "ClipboardStore \<Rightarrow> int \<Rightarrow> ClipboardStore" where
  "cs_cleanupExpired cs now =
     (let cs1 = (case cs_text cs of
                   None \<Rightarrow> cs
                 | Some entry \<Rightarrow>
                     if now > ce_expiresAt entry then (shredEntry cs entry)\<lparr>cs_text := None\<rparr> else cs)
      in case cs_image cs1 of
           None \<Rightarrow> cs1
         | Some entry \<Rightarrow>
             if now > ce_expiresAt entry then (shredEntry cs1 entry)\<lparr>cs_image := None\<rparr> else cs1)"

text \<open>\<open>SetEncryptedText\<close> reads the clock twice: \<open>now\<close> for \<open>createdAt\<close> and \<open>now'\<close> for
  \<open>expiresAt\<close>.\<close>

definition SetEncryptedText :: "ClipboardStore \<Rightarrow> bytes \<Rightarrow> int \<Rightarrow> int \<Rightarrow> ClipboardStore" where
  "SetEncryptedText cs encrypted now now' =
     (if length encrypted = 0 then cs
      else
        let cs1 = (case cs_text cs of None \<Rightarrow> cs | Some old \<Rightarrow> shredEntry cs old)
        in cs1\<lparr>cs_text :=
                 Some \<lparr>ce_data = None, ce_encrypted = Some encrypted,
                       ce_contentType = ClipboardTypeText, ce_mimeType = [],
                       ce_size = word_of_nat (length encrypted),
                       ce_createdAt = now, ce_expiresAt = now' + cs_expiry cs\<rparr>\<rparr>)"

definition SetEncryptedImage :: "ClipboardStore \<Rightarrow> bytes \<Rightarrow> string \<Rightarrow> int \<Rightarrow> int \<Rightarrow> ClipboardStore" where
  "SetEncryptedImage cs encrypted mimeType now now' =
     (if length encrypted = 0 then cs
      else
        let cs1 = (case cs_image cs of None \<Rightarrow> cs | Some old \<Rightarrow> shredEntry cs old)
        in cs1\<lparr>cs_image :=
                 Some \<lparr>ce_data = None, ce_encrypted = Some encrypted,
                       ce_contentType = ClipboardTypeImage, ce_mimeType = mimeType,
                       ce_size = word_of_nat (length encrypted),
                       ce_createdAt = now, ce_expiresAt = now' + cs_expiry cs\<rparr>\<rparr>)"

text \<open>A tracker pointer that is \<open>nil\<close> or whose counter is not negative.\<close>

definition mem_nonneg :: "MemoryTracker option \<Rightarrow> bool" where
  "mem_nonneg mem \<longleftrightarrow> (case mem of None \<Rightarrow> True | Some m \<Rightarrow> 0 \<le> sint (allocated m))"

section \<open>Verification: memory tracker\<close>

lemma sint_add_no_wrap:
  fixes a b :: int64
  assumes "- (2 ^ 63) \<le> sint a + sint b" "sint a + sint b < 2 ^ 63"
  shows "sint (a + b) = sint a + sint b"
  using assms by (simp add: sint_word_ariths signed_take_bit_int_eq_self)

lemma sint_sub_no_wrap:
  fixes a b :: int64
  assumes "- (2 ^ 63) \<le> sint a - sint b" "sint a - sint b < 2 ^ 63"
  shows "sint (a - b) = sint a - sint b"
  using assms by (simp add: sint_word_ariths signed_take_bit_int_eq_self)

lemma sint64_lt: "sint (x :: int64) < 2 ^ 63"
  using sint_lt [of x] by simp

lemma sint64_ge: "- (2 ^ 63) \<le> sint (x :: int64)"
  using sint_ge [of x] by simp

lemma Allocate_nonpositive: "sint n \<le> 0 \<Longrightarrow> Allocate m n = (None, m)"
  by (simp add: Allocate_def)

lemma Free_nonpositive: "sint n \<le> 0 \<Longrightarrow> Free m n = m"
  by (simp add: Free_def)

lemma Allocate_sum:
  assumes "tracker_ok m" "0 < sint n" "no_wrap m n"
  shows "sint (allocated m + n) = sint (allocated m) + sint n"
proof (rule sint_add_no_wrap)
  from assms show "- (2 ^ 63) \<le> sint (allocated m) + sint n"
    by (simp add: tracker_ok_def)
  from assms show "sint (allocated m) + sint n < 2 ^ 63"
    by (simp add: no_wrap_def)
qed

lemma Allocate_exceeds:
  assumes "tracker_ok m" "0 < sint n" "no_wrap m n"
    "sint (allocated m) + sint n > sint (limit m)"
  shows "Allocate m n = (Some ErrMemoryLimitExceeded, m)"
  using assms Allocate_sum [OF assms(1-3)] by (simp add: Allocate_def)

lemma Allocate_within:
  assumes "tracker_ok m" "0 < sint n"
    "sint (allocated m) + sint n \<le> sint (limit m)"
  shows "Allocate m n = (None, m\<lparr>allocated := allocated m + n\<rparr>)"
    and "sint (allocated (snd (Allocate m n))) = sint (allocated m) + sint n"
proof -
  have "no_wrap m n" using assms(3) sint64_lt [of "limit m"] by (simp add: no_wrap_def)
  from Allocate_sum [OF assms(1,2) this] assms
  show "Allocate m n = (None, m\<lparr>allocated := allocated m + n\<rparr>)"
    and "sint (allocated (snd (Allocate m n))) = sint (allocated m) + sint n"
    by (simp_all add: Allocate_def)
qed

lemma Free_sub:
  assumes "0 \<le> sint (allocated m)" "0 < sint n"
  shows "sint (allocated m - n) = sint (allocated m) - sint n"
proof (rule sint_sub_no_wrap)
  from assms sint64_lt [of n] show "- (2 ^ 63) \<le> sint (allocated m) - sint n" by simp
  from assms sint64_lt [of "allocated m"] show "sint (allocated m) - sint n < 2 ^ 63" by simp
qed

lemma Free_positive:
  assumes "0 \<le> sint (allocated m)" "0 < sint n"
  shows "sint (allocated (Free m n)) = max 0 (sint (allocated m) - sint n)"
  using assms Free_sub [OF assms] by (simp add: Free_def Let_def)

lemma Free_limit: "limit (Free m n) = limit m"
  by (simp add: Free_def Let_def)

lemma Allocate_limit: "limit (snd (Allocate m n)) = limit m"
  by (simp add: Allocate_def)

lemma Free_ok: "tracker_ok m \<Longrightarrow> tracker_ok (Free m n)"
proof (cases "sint n \<le> 0")
  case True
  assume "tracker_ok m"
  with True show ?thesis by (simp add: Free_nonpositive)
next
  case False
  assume ok: "tracker_ok m"
  then have "0 \<le> sint (allocated m)" by (simp add: tracker_ok_def)
  from Free_positive [OF this] False ok show ?thesis
    by (simp add: tracker_ok_def Free_limit)
qed

lemma Allocate_ok:
  assumes "tracker_ok m" "no_wrap m n"
  shows "tracker_ok (snd (Allocate m n))"
proof (cases "sint n \<le> 0")
  case True
  with assms show ?thesis by (simp add: Allocate_nonpositive)
next
  case False
  then have pos: "0 < sint n" by simp
  show ?thesis
  proof (cases "sint (allocated m) + sint n > sint (limit m)")
    case True
    from Allocate_exceeds [OF assms(1) pos assms(2) True] assms(1) show ?thesis by simp
  next
    case False
    then have le: "sint (allocated m) + sint n \<le> sint (limit m)" by simp
    from Allocate_within(2) [OF assms(1) pos le] pos le assms(1)
    show ?thesis by (simp add: tracker_ok_def Allocate_limit)
  qed
qed

lemma tracker_step_limit: "limit (tracker_step m c) = limit m"
  by (cases c) (simp_all add: Allocate_limit Free_limit)

lemma tracker_run_limit: "limit (tracker_run m cs) = limit m"
  by (induction cs arbitrary: m) (simp_all add: tracker_step_limit)

lemma tracker_run_ok:
  "tracker_ok m \<Longrightarrow> run_no_wrap m cs \<Longrightarrow> tracker_ok (tracker_run m cs)"
proof (induction cs arbitrary: m)
  case Nil
  then show ?case by simp
next
  case (Cons c cs)
  show ?case
  proof (cases c)
    case (CallAllocate n)
    with Cons.prems have "tracker_ok (snd (Allocate m n))" "run_no_wrap (snd (Allocate m n)) cs"
      by (simp_all add: Allocate_ok)
    with Cons.IH CallAllocate show ?thesis by simp
  next
    case (CallFree n)
    with Cons.prems have "tracker_ok (Free m n)" "run_no_wrap (Free m n) cs"
      by (simp_all add: Free_ok)
    with Cons.IH CallFree show ?thesis by simp
  qed
qed

text \<open>
  What the tracker does while the sum \<open>allocated + n\<close> stays an \<open>int64\<close>.  On a tracker
  with \<open>0 \<le> allocated \<le> limit\<close>: \<open>Free n\<close> lowers the counter by \<open>n\<close>, stopping at zero
  (for every \<open>n > 0\<close>; a size \<open>n \<le> 0\<close> changes nothing); \<open>Allocate n\<close> with a sum that
  does not wrap fails with \<open>ErrMemoryLimitExceeded\<close> exactly when \<open>n > 0\<close> and
  \<open>allocated + n > limit\<close>, leaving the counter as it was, and otherwise succeeds and
  adds \<open>n\<close> (nothing for \<open>n \<le> 0\<close>); and along a sequence of calls none of which wraps
  the counter stays in \<open>[0, limit]\<close>.
\<close>

lemma MemoryTracker_without_wrap:
  assumes "tracker_ok m"
  shows "sint (allocated (Free m n)) =
           (if 0 < sint n then max 0 (sint (allocated m) - sint n) else sint (allocated m))"
    and "limit (Free m n) = limit m"
    and "no_wrap m n \<Longrightarrow> fst (Allocate m n) =
           (if 0 < sint n \<and> sint (allocated m) + sint n > sint (limit m)
            then Some ErrMemoryLimitExceeded else None)"
    and "no_wrap m n \<Longrightarrow> sint (allocated (snd (Allocate m n))) =
           (if 0 < sint n \<and> sint (allocated m) + sint n \<le> sint (limit m)
            then sint (allocated m) + sint n else sint (allocated m))"
    and "limit (snd (Allocate m n)) = limit m"
    and "run_no_wrap m cs \<Longrightarrow> tracker_ok (tracker_run m cs) \<and> limit (tracker_run m cs) = limit m"
proof -
  have a0: "0 \<le> sint (allocated m)" using assms by (simp add: tracker_ok_def)
  show "sint (allocated (Free m n)) =
           (if 0 < sint n then max 0 (sint (allocated m) - sint n) else sint (allocated m))"
    using Free_positive [OF a0, of n] by (simp add: Free_nonpositive)
  show "limit (Free m n) = limit m" by (rule Free_limit)
  show "limit (snd (Allocate m n)) = limit m" by (rule Allocate_limit)
  show "run_no_wrap m cs \<Longrightarrow> tracker_ok (tracker_run m cs) \<and> limit (tracker_run m cs) = limit m"
    using assms by (simp add: tracker_run_ok tracker_run_limit)
  {
    assume nw: "no_wrap m n"
    show "fst (Allocate m n) =
           (if 0 < sint n \<and> sint (allocated m) + sint n > sint (limit m)
            then Some ErrMemoryLimitExceeded else None)"
    proof (cases "0 < sint n")
      case False
      then show ?thesis by (simp add: Allocate_nonpositive)
    next
      case pos: True
      show ?thesis
      proof (cases "sint (allocated m) + sint n > sint (limit m)")
        case True
        from Allocate_exceeds [OF assms pos nw True] True pos show ?thesis by simp
      next
        case False
        then have le: "sint (allocated m) + sint n \<le> sint (limit m)" by simp
        from Allocate_within(1) [OF assms pos le] False show ?thesis by simp
      qed
    qed
    show "sint (allocated (snd (Allocate m n))) =
           (if 0 < sint n \<and> sint (allocated m) + sint n \<le> sint (limit m)
            then sint (allocated m) + sint n else sint (allocated m))"
    proof (cases "0 < sint n")
      case False
      then show ?thesis by (simp add: Allocate_nonpositive)
    next
      case pos: True
      show ?thesis
      proof (cases "sint (allocated m) + sint n > sint (limit m)")
        case True
        from Allocate_exceeds [OF assms pos nw True] True show ?thesis by simp
      next
        case False
        then have le: "sint (allocated m) + sint n \<le> sint (limit m)" by simp
        from Allocate_within(2) [OF assms pos le] le pos show ?thesis by simp
      qed
    qed
  }
qed

text \<open>
  Claim C3 says that the counter always stays in \<open>[0, limit]\<close> and that \<open>Allocate n\<close> fails
  with \<open>ErrMemoryLimitExceeded\<close> whenever \<open>allocated + n > limit\<close>; the comment on
  \<open>Allocate\<close> says the same (\<open>Returns an error if the allocation would exceed the limit\<close>).
  The code compares the 64-bit sum \<open>m.allocated + size\<close> with the limit, and that sum wraps
  around.  On a tracker with limit 1 MiB and one byte allocated, \<open>Allocate (2^63 - 1)\<close>
  asks for more than the limit allows, yet it returns \<open>nil\<close> and leaves the counter at
  \<open>- 2^63\<close>, below zero.
\<close>

theorem MemoryTracker_allocate_wraps:
  "tracker_ok \<lparr>allocated = 1, limit = 1048576\<rparr>
   \<and> 0 < sint (0x7FFFFFFFFFFFFFFF :: int64)
   \<and> sint (1 :: int64) + sint (0x7FFFFFFFFFFFFFFF :: int64) > sint (1048576 :: int64)
   \<and> Allocate \<lparr>allocated = 1, limit = 1048576\<rparr> 0x7FFFFFFFFFFFFFFF
        = (None, \<lparr>allocated = 0x8000000000000000, limit = 1048576\<rparr>)
   \<and> sint (allocated (snd (Allocate \<lparr>allocated = 1, limit = 1048576\<rparr> 0x7FFFFFFFFFFFFFFF)))
        = - 9223372036854775808
   \<and> \<not> tracker_ok (snd (Allocate \<lparr>allocated = 1, limit = 1048576\<rparr> 0x7FFFFFFFFFFFFFFF))
   \<and> \<not> tracker_ok (tracker_run \<lparr>allocated = 0, limit = 1048576\<rparr>
           [CallAllocate 1, CallAllocate 0x7FFFFFFFFFFFFFFF])"
  by (simp add: Allocate_def tracker_ok_def)

section \<open>Verification: secure buffers\<close>

lemma ReadFull_length: "ReadFull r n = Some bs \<Longrightarrow> length bs = n"
  by (auto simp: ReadFull_def split: option.splits if_splits)

lemma length_xor_into: "length (xor_into n a b) = n"
  by (simp add: xor_into_def)

lemma nth_xor_into: "i < n \<Longrightarrow> xor_into n a b ! i = (a ! i) XOR (b ! i)"
  by (simp add: xor_into_def)

lemma xor_into_cancel:
  fixes x :: bytes
  assumes "length x = n" "length p = n"
  shows "xor_into n (xor_into n x p) p = x"
proof (rule nth_equalityI)
  show "length (xor_into n (xor_into n x p) p) = length x"
    using assms by (simp add: length_xor_into)
next
  fix i assume "i < length (xor_into n (xor_into n x p) p)"
  then have "i < n" by (simp add: length_xor_into)
  then show "xor_into n (xor_into n x p) p ! i = x ! i"
    by (simp add: nth_xor_into xor.assoc)
qed

text \<open>The in-place loop of rotate, index by index.\<close>

lemma rotate_loop_length:
  "length (foldl (\<lambda>d i. d[i := f d i]) d is) = length d"
  by (induction "is" arbitrary: d) simp_all

lemma rotate_loop_nth:
  fixes d :: bytes
  assumes "k \<le> length d"
  shows "foldl (\<lambda>d i. d[i := ((d ! i) XOR (p ! i)) XOR (q ! i)]) d [0..<k] ! j
         = (if j < k then ((d ! j) XOR (p ! j)) XOR (q ! j) else d ! j)"
  using assms
proof (induction k arbitrary: j)
  case 0
  then show ?case by simp
next
  case (Suc k)
  let ?f = "\<lambda>d i. d[i := ((d ! i) XOR (p ! i)) XOR (q ! i)]"
  have len: "length (foldl ?f d [0..<k]) = length d" by (rule rotate_loop_length)
  from Suc.prems have "k \<le> length d" by simp
  then have IH: "foldl ?f d [0..<k] ! j = (if j < k then ((d ! j) XOR (p ! j)) XOR (q ! j) else d ! j)" for j
    by (rule Suc.IH)
  show ?case
    using Suc.prems len by (auto simp: IH nth_list_update)
qed

lemma ob_holds_Read: "ob_holds ob x \<Longrightarrow> ob_Read ob = Inr x"
  by (simp add: ob_holds_def ob_Read_def)

lemma New_inv:
  assumes "NewObfuscatedBufferWithInterval (Some x) iv r = Inr ob"
  shows "ob_holds ob x"
proof -
  from assms obtain pad where pad: "ReadFull r (length x) = Some pad"
    and ob: "ob = \<lparr>ob_data = xor_into (length x) x pad, ob_pad = pad, ob_size = length x,
                        ob_interval = (if iv \<le> 0 then DefaultRotationInterval else iv), ob_destroyed = False\<rparr>"
    by (auto simp: NewObfuscatedBufferWithInterval_def Let_def split: if_splits option.splits)
  from pad have "length pad = length x" by (rule ReadFull_length)
  then show ?thesis
    by (simp add: ob ob_holds_def length_xor_into xor_into_cancel)
qed

lemma rotate_inv:
  assumes "ob_holds ob x"
  shows "\<exists>ob'. rotate ob r = Inr ob' \<and> ob_holds ob' x"
proof (cases "ReadFull r (ob_size ob)")
  case None
  with assms show ?thesis by (simp add: rotate_def ob_holds_def)
next
  case (Some newPad)
  then have lnp: "length newPad = length x" using assms by (simp add: ReadFull_length ob_holds_def)
  let ?d = "foldl (\<lambda>d i. d[i := ((d ! i) XOR (ob_pad ob ! i)) XOR (newPad ! i)]) (ob_data ob) [0..<ob_size ob]"
  have r: "rotate ob r = Inr (ob\<lparr>ob_data := ?d, ob_pad := newPad\<rparr>)"
    using assms Some by (simp add: rotate_def ob_holds_def)
  have ld: "length ?d = length x" using assms by (simp add: rotate_loop_length ob_holds_def)
  have "xor_into (length x) ?d newPad = x"
  proof (rule nth_equalityI)
    show "length (xor_into (length x) ?d newPad) = length x" by (simp add: length_xor_into)
  next
    fix i assume "i < length (xor_into (length x) ?d newPad)"
    then have i: "i < length x" by (simp add: length_xor_into)
    have "?d ! i = ((ob_data ob ! i) XOR (ob_pad ob ! i)) XOR (newPad ! i)"
      using assms i by (simp add: rotate_loop_nth ob_holds_def)
    moreover have "(ob_data ob ! i) XOR (ob_pad ob ! i) = x ! i"
      using assms i nth_xor_into [of i "length x" "ob_data ob" "ob_pad ob"] by (simp add: ob_holds_def)
    ultimately show "xor_into (length x) ?d newPad ! i = x ! i"
      using i by (simp add: nth_xor_into xor.assoc)
  qed
  with assms ld lnp have "ob_holds (ob\<lparr>ob_data := ?d, ob_pad := newPad\<rparr>) x"
    by (simp add: ob_holds_def)
  with r show ?thesis by blast
qed

lemma rotations_inv:
  "ob_holds ob x \<Longrightarrow> \<exists>ob'. rotations ob rs = Inr ob' \<and> ob_holds ob' x"
proof (induction rs arbitrary: ob)
  case Nil
  then show ?case by simp
next
  case (Cons r rs)
  from rotate_inv [OF Cons.prems, of r] obtain ob1 where "rotate ob r = Inr ob1" "ob_holds ob1 x"
    by blast
  with Cons.IH [of ob1] show ?case by simp
qed

lemma sdiv_nonneg: "0 \<le> k \<Longrightarrow> 0 < l \<Longrightarrow> k sdiv l = k div (l :: int)"
  by (cases "k = 0") (simp_all add: signed_divide_int_def)

lemma sdiv_neg: "k < 0 \<Longrightarrow> 0 < l \<Longrightarrow> k sdiv l \<le> (0 :: int)"
  by (simp add: signed_divide_int_def pos_imp_zdiv_nonneg_iff)

lemma wrap64_id: "- (2 ^ 63) \<le> k \<Longrightarrow> k < 2 ^ 63 \<Longrightarrow> wrap64 k = k"
  by (simp add: wrap64_def signed_take_bit_int_eq_self)

lemma wrap64_sub1: "wrap64 (wrap64 a - 1) = wrap64 (a - 1)"
  using signed_take_bit_diff [of 63 a 1] by (simp add: wrap64_def)

lemma wrap64_high:
  assumes "2 ^ 63 \<le> k" "k < 2 ^ 64"
  shows "wrap64 k = k - 2 ^ 64"
proof -
  have "wrap64 k = wrap64 (k - 2 ^ 64)"
    unfolding wrap64_def by (simp add: signed_take_bit_eq_iff_take_bit_eq take_bit_eq_mod)
  also have "\<dots> = k - 2 ^ 64"
    using assms by (intro wrap64_id) simp_all
  finally show ?thesis .
qed

lemma chunk_layout_ceil:
  assumes n: "1 \<le> n" "n \<le> MaxBufferSize" and lay: "chunk_layout n c = (cs, k)"
  shows "1 \<le> cs \<and> k = (int n + cs - 1) div cs"
proof -
  define c0 where "c0 = (if sint c \<le> 0 then DefaultChunkSize else sint c)"
  have c0: "1 \<le> c0" "c0 < 2 ^ 63"
    using sint_lt [of c] by (auto simp: c0_def DefaultChunkSize_def)
  have nb: "int n \<le> 104857600" using n by (simp add: MaxBufferSize_def)
  define k0 where "k0 = wrap64 (wrap64 (int n + c0) - 1) sdiv c0"
  have k0: "k0 = wrap64 (int n + c0 - 1) sdiv c0"
    by (simp add: k0_def wrap64_sub1)
  define cs4 where "cs4 = wrap64 (int n + 3) sdiv 4"
  have cs4: "cs4 = (int n + 3) div 4"
    using nb by (simp add: cs4_def wrap64_id sdiv_nonneg)
  have cs4_pos: "1 \<le> cs4" using n cs4 by simp
  have small: "wrap64 (wrap64 (int n + cs4) - 1) sdiv cs4 = (int n + cs4 - 1) div cs4"
  proof -
    have "cs4 \<le> 104857600" using nb cs4 by simp
    with nb cs4_pos have "wrap64 (int n + cs4 - 1) = int n + cs4 - 1"
      by (intro wrap64_id) simp_all
    with cs4_pos show ?thesis by (simp add: wrap64_sub1 sdiv_nonneg)
  qed
  show ?thesis
  proof (cases "k0 < 4")
    case True
    with lay have "cs = cs4" "k = wrap64 (wrap64 (int n + cs4) - 1) sdiv cs4"
      using cs4_pos by (auto simp add: chunk_layout_def Let_def c0_def [symmetric] k0_def [symmetric] cs4_def [symmetric])
    with small cs4_pos show ?thesis by simp
  next
    case False
    with lay have eq: "cs = c0" "k = k0"
      by (simp_all add: chunk_layout_def Let_def c0_def [symmetric] k0_def [symmetric])
    have "int n + c0 - 1 < 2 ^ 63"
    proof (rule ccontr)
      assume "\<not> int n + c0 - 1 < 2 ^ 63"
      then have "2 ^ 63 \<le> int n + c0 - 1" by simp
      moreover have "int n + c0 - 1 < 2 ^ 64" using nb c0 by simp
      ultimately have "wrap64 (int n + c0 - 1) < 0" by (simp add: wrap64_high)
      then have "k0 \<le> 0" using c0 unfolding k0 by (intro sdiv_neg) simp_all
      with False show False by simp
    qed
    then have "wrap64 (int n + c0 - 1) = int n + c0 - 1"
      using c0 by (intro wrap64_id) simp_all
    then have "k0 = (int n + c0 - 1) div c0"
      using c0 by (simp add: k0 sdiv_nonneg)
    with eq c0 show ?thesis by simp
  qed
qed

lemma layout_nat:
  assumes n: "1 \<le> n" "n \<le> MaxBufferSize" and lay: "chunk_layout n c = (cs, k)"
  shows "0 < nat cs" and "0 \<le> k" and "\<And>p. p < n \<Longrightarrow> p div nat cs < nat k"
proof -
  from chunk_layout_ceil [OF n lay] have cs: "1 \<le> cs" and k: "k = (int n + cs - 1) div cs"
    by simp_all
  show "0 < nat cs" using cs by simp
  show "0 \<le> k" using cs n unfolding k by (simp add: pos_imp_zdiv_nonneg_iff)
  fix p assume p: "p < n"
  have "int p div cs + 1 = (int p + cs) div cs"
    using cs div_add_self2 [of cs "int p"] by simp
  also have "\<dots> \<le> (int n + cs - 1) div cs"
    using p cs by (intro zdiv_mono1) simp_all
  finally have "int p div cs < k" unfolding k by simp
  moreover have "int (p div nat cs) = int p div cs"
    using cs by (simp add: zdiv_int)
  ultimately show "p div nat cs < nat k" by linarith
qed

lemma shuffle_loop_props:
  "i < length order \<Longrightarrow>
     length (shuffle_loop i rnd order) = length order \<and> set (shuffle_loop i rnd order) = set order"
proof (induction i arbitrary: order)
  case 0
  then show ?case by simp
next
  case (Suc i)
  define j where "j = (case ReadFull (rnd (Suc i)) 8 of
                 None \<Rightarrow> Suc i div 2
               | Some jBytes \<Rightarrow> unat (le_uint64 jBytes) mod (Suc i + 1))"
  have "j \<le> Suc i"
    by (auto simp: j_def split: option.splits intro: less_Suc_eq_le [THEN iffD1])
  with Suc.prems have j: "j < length order" by simp
  let ?o = "order[Suc i := order ! j, j := order ! Suc i]"
  have "length ?o = length order" by simp
  moreover have "set ?o = set order" using Suc.prems j by (simp add: set_swap)
  moreover have "i < length ?o" using Suc.prems by simp
  ultimately show ?case
    using Suc.IH [of ?o] by (simp add: j_def Let_def)
qed

lemma shuffleOrder_props:
  "length (shuffleOrder rnd order) = length order \<and> set (shuffleOrder rnd order) = set order"
proof (cases order)
  case Nil
  then show ?thesis by (simp add: shuffleOrder_def)
next
  case (Cons a as)
  then have "length order - 1 < length order" by simp
  then show ?thesis unfolding shuffleOrder_def by (rule shuffle_loop_props)
qed

text \<open>Copying a chunk into the result.\<close>

lemma copy_into_length:
  assumes "start \<le> end" "end \<le> length r" "end - start \<le> length src"
  shows "length (copy_into r start end src) = length r"
proof -
  have m: "min (end - start) (length src) = end - start" using assms by simp
  have "length (copy_into r start end src) = start + (end - start) + (length r - end)"
    unfolding copy_into_def using assms by (simp add: m)
  with assms show ?thesis by simp
qed

lemma copy_into_nth:
  assumes "start \<le> end" "end \<le> length r" "end - start \<le> length src" "p < length r"
  shows "copy_into r start end src ! p =
           (if start \<le> p \<and> p < end then src ! (p - start) else r ! p)"
proof -
  have m: "min (end - start) (length src) = end - start" using assms by simp
  have c: "copy_into r start end src = take start r @ take (end - start) src @ drop end r"
    unfolding copy_into_def using assms by (simp add: m)
  have l1: "length (take start r) = start" using assms by simp
  have l2: "length (take (end - start) src) = end - start" using assms by simp
  consider "p < start" | "start \<le> p" "p < end" | "end \<le> p" by linarith
  then show ?thesis
  proof cases
    case 1
    then have "copy_into r start end src ! p = take start r ! p"
      unfolding c using l1 by (simp add: nth_append_left del: length_take)
    with 1 show ?thesis by simp
  next
    case 2
    then have "p - start < end - start" by simp
    have "copy_into r start end src ! p = (take (end - start) src @ drop end r) ! (p - start)"
      unfolding c using 2 l1 by (simp add: nth_append_right del: length_take)
    also have "\<dots> = take (end - start) src ! (p - start)"
      using \<open>p - start < end - start\<close> l2 by (simp add: nth_append_left del: length_take)
    finally show ?thesis using 2 \<open>p - start < end - start\<close> by simp
  next
    case 3
    then have sp: "start \<le> p" "end - start \<le> p - start" using assms by simp_all
    have "copy_into r start end src ! p = (take (end - start) src @ drop end r) ! (p - start)"
      unfolding c using sp l1 by (simp add: nth_append_right del: length_take)
    also have "\<dots> = drop end r ! (p - start - (end - start))"
      using sp l2 by (simp add: nth_append_right del: length_take)
    also have "\<dots> = r ! (end + (p - start - (end - start)))"
      using assms by simp
    also have "end + (p - start - (end - start)) = p" using 3 assms by simp
    finally show ?thesis using 3 by simp
  qed
qed

lemma chunk_at_length:
  assumes "0 < cs" "og * cs < length x"
  shows "length (chunk_at x cs og) = min (og * cs + cs) (length x) - og * cs"
  using assms by (auto simp: chunk_at_def slice_def Let_def min_def)

lemma chunk_at_nth:
  assumes "0 < cs" "og * cs < length x" "q < length (chunk_at x cs og)"
  shows "chunk_at x cs og ! q = x ! (og * cs + q)"
proof -
  from assms chunk_at_length [OF assms(1,2)]
  have q: "q < min (og * cs + cs) (length x) - og * cs" by simp
  have "chunk_at x cs og = take (min (og * cs + cs) (length x) - og * cs) (drop (og * cs) x)"
    using assms(2) by (simp add: chunk_at_def slice_def Let_def min_def)
  with q show ?thesis using assms(2) by simp
qed

lemma chunk_at_empty: "length x \<le> og * cs \<Longrightarrow> chunk_at x cs og = []"
  by (simp add: chunk_at_def Let_def)

text \<open>The effect of placing the chunk of original position og.\<close>

lemma agrees_place:
  assumes cs: "0 < cs" and ag: "agrees x cs r S" and st: "og * cs < length x"
  shows "agrees x cs (placed x cs r og) (insert og S)"
proof -
  let ?e = "min (og * cs + cs) (length x)"
  have len: "length r = length x" using ag by (simp add: agrees_def)
  have a: "og * cs \<le> ?e" "?e \<le> length r" "?e - og * cs \<le> length (chunk_at x cs og)"
    using st len chunk_at_length [OF cs st] by simp_all
  have l2: "length (placed x cs r og) = length x"
    unfolding placed_def using copy_into_length [OF a] len by simp
  have "placed x cs r og ! p = x ! p" if p: "p < length x" and d: "p div cs \<in> insert og S" for p
  proof -
    have nth: "placed x cs r og ! p =
           (if og * cs \<le> p \<and> p < ?e then chunk_at x cs og ! (p - og * cs) else r ! p)"
      unfolding placed_def using copy_into_nth [OF a] p len by simp
    show ?thesis
    proof (cases "og * cs \<le> p \<and> p < ?e")
      case True
      then have "p - og * cs < length (chunk_at x cs og)"
        using chunk_at_length [OF cs st] by linarith
      from chunk_at_nth [OF cs st this] True nth show ?thesis by simp
    next
      case False
      have "p div cs \<noteq> og"
      proof
        assume "p div cs = og"
        then have "og * cs \<le> p" "p < og * cs + cs"
          using cs dividend_less_div_times [of cs p] div_times_less_eq_dividend [of p cs]
          by (simp_all add: ac_simps)
        with p False show False by simp
      qed
      with d have "p div cs \<in> S" by simp
      with ag p have "r ! p = x ! p" by (simp add: agrees_def)
      with nth False show ?thesis by auto
    qed
  qed
  with l2 show ?thesis by (simp add: agrees_def)
qed

lemma agrees_skip:
  assumes cs: "0 < cs" and ag: "agrees x cs r S" and st: "length x \<le> og * cs"
  shows "agrees x cs r (insert og S)"
proof -
  have "p div cs \<noteq> og" if "p < length x" for p
  proof
    assume "p div cs = og"
    then have "og * cs \<le> p" using div_times_less_eq_dividend [of p cs] by simp
    with that st show False by simp
  qed
  with ag show ?thesis by (auto simp: agrees_def)
qed

lemma agrees_all:
  assumes "agrees x cs r S" "\<And>p. p < length x \<Longrightarrow> p div cs \<in> S"
  shows "r = x"
  using assms by (auto simp: agrees_def intro: nth_equalityI)

lemma agrees_place_or_skip:
  "0 < cs \<Longrightarrow> agrees x cs r S \<Longrightarrow> agrees x cs (place_or_skip x cs r og) (insert og S)"
  by (simp add: place_or_skip_def agrees_place agrees_skip)

lemma agrees_fold:
  assumes "0 < cs"
  shows "agrees x cs r S \<Longrightarrow>
     agrees x cs (foldl (\<lambda>r i. place_or_skip x cs r (order ! i)) r js) (S \<union> (\<lambda>i. order ! i) ` set js)"
proof (induction js arbitrary: r S)
  case Nil
  then show ?case by simp
next
  case (Cons j js)
  from agrees_place_or_skip [OF assms Cons.prems]
  have "agrees x cs (place_or_skip x cs r (order ! j)) (insert (order ! j) S)" .
  from Cons.IH [OF this] show ?case by simp
qed

lemma agrees_init: "agrees x cs (replicate (length x) 0) {}"
  by (simp add: agrees_def)

lemma reassemble:
  assumes cs: "0 < cs" and cover: "\<And>p. p < length x \<Longrightarrow> p div cs \<in> set order"
  shows "foldl (\<lambda>r i. place_or_skip x cs r (order ! i)) (replicate (length x) 0) [0..<length order] = x"
proof -
  have img: "(\<lambda>i. order ! i) ` {0..<length order} = set order"
    by (auto simp: in_set_conv_nth)
  from agrees_fold [OF cs agrees_init, of x order "[0..<length order]"]
  have "agrees x cs (foldl (\<lambda>r i. place_or_skip x cs r (order ! i)) (replicate (length x) 0) [0..<length order]) (set order)"
    by (simp add: img)
  then show ?thesis using cover by (rule agrees_all)
qed

lemma foldl_cong_set:
  "(\<And>r i. i \<in> set js \<Longrightarrow> P r \<Longrightarrow> f r i = g r i \<and> P (g r i)) \<Longrightarrow> P r0 \<Longrightarrow> foldl f r0 js = foldl g r0 js"
  by (induction js arbitrary: r0) simp_all

lemma placed_length:
  assumes "0 < cs" "length r = length x" "og * cs < length x"
  shows "length (placed x cs r og) = length x"
proof -
  have "length (placed x cs r og) = length r"
    unfolding placed_def using assms chunk_at_length [OF assms(1,3)]
    by (intro copy_into_length) simp_all
  with assms show ?thesis by simp
qed

lemma place_or_skip_length:
  "0 < cs \<Longrightarrow> length r = length x \<Longrightarrow> length (place_or_skip x cs r og) = length x"
  by (simp add: place_or_skip_def placed_length)

lemma sb_place_eq:
  fixes r :: bytes
  assumes h: "sb_holds sb x" and i: "i < length (sb_order sb)" and r: "length r = length x"
  shows "sb_place sb r i = place_or_skip x (sb_chunkSize sb) r (sb_order sb ! i)"
proof -
  let ?cs = "sb_chunkSize sb" and ?og = "sb_order sb ! i"
  from h i have ch: "sb_chunks sb ! i = chunk_at x ?cs ?og" and il: "i < length (sb_chunks sb)"
    and cs: "0 < ?cs" and tot: "sb_totalSize sb = length x"
    by (simp_all add: sb_holds_def)
  show ?thesis
  proof (cases "?og * ?cs < length x")
    case True
    from chunk_at_length [OF cs True]
    have len: "length (chunk_at x ?cs ?og) = min (?og * ?cs + ?cs) (length x) - ?og * ?cs" .
    then have pos: "0 < length (chunk_at x ?cs ?og)" using True cs by simp
    have e: "?og * ?cs + length (chunk_at x ?cs ?og) = min (?og * ?cs + ?cs) (length x)"
      using len True by simp
    show ?thesis
      using True pos il
      by (simp add: sb_place_def ch tot Let_def place_or_skip_def placed_def e)
  next
    case False
    then have "chunk_at x ?cs ?og = []" by (simp add: chunk_at_empty)
    with False il show ?thesis
      by (simp add: sb_place_def ch place_or_skip_def)
  qed
qed

lemma sb_holds_Read:
  assumes h: "sb_holds sb x"
  shows "sb_Read sb = Inr x"
proof -
  let ?cs = "sb_chunkSize sb"
  from h have cs: "0 < ?cs" and tot: "sb_totalSize sb = length x" and nd: "\<not> sb_destroyed sb"
    and cover: "\<And>p. p < length x \<Longrightarrow> p div ?cs \<in> set (sb_order sb)"
    by (simp_all add: sb_holds_def)
  have "foldl (sb_place sb) (replicate (length x) 0) [0..<length (sb_order sb)]
        = foldl (\<lambda>r i. place_or_skip x ?cs r (sb_order sb ! i)) (replicate (length x) 0) [0..<length (sb_order sb)]"
  proof (rule foldl_cong_set [where P = "\<lambda>r. length r = length x"])
    fix r :: bytes and i assume "i \<in> set [0..<length (sb_order sb)]" "length r = length x"
    then show "sb_place sb r i = place_or_skip x ?cs r (sb_order sb ! i)
               \<and> length (place_or_skip x ?cs r (sb_order sb ! i)) = length x"
      using sb_place_eq [OF h] cs by (simp add: place_or_skip_length)
  qed simp
  also have "\<dots> = x" using cs cover by (rule reassemble)
  finally show ?thesis using nd tot by (simp add: sb_Read_def)
qed

lemma New_sb_holds:
  assumes "NewScatteredBufferWithChunkSize (Some x) c rnd = Inr sb"
  shows "sb_holds sb x"
proof -
  from assms have n: "1 \<le> length x" "length x \<le> MaxBufferSize"
    by (auto simp: NewScatteredBufferWithChunkSize_def Suc_le_eq split: if_splits)
  obtain cs k where lay: "chunk_layout (length x) c = (cs, k)" by (cases "chunk_layout (length x) c")
  note L = layout_nat [OF n lay]
  let ?order = "shuffleOrder rnd [0..<nat k]"
  from n have "x \<noteq> []" "\<not> MaxBufferSize < length x" by auto
  with assms lay L(2)
  have sb: "sb = \<lparr>sb_chunks = map (\<lambda>i. chunk_at x (nat cs) (?order ! i)) [0..<nat k], sb_order = ?order,
        sb_chunkSize = nat cs, sb_totalSize = length x, sb_destroyed = False\<rparr>"
    by (simp add: NewScatteredBufferWithChunkSize_def Let_def)
  have so: "length ?order = nat k" "set ?order = {0..<nat k}"
    using shuffleOrder_props [of rnd "[0..<nat k]"] by simp_all
  show ?thesis
    using L(1) L(3) so by (simp add: sb sb_holds_def)
qed

lemma obfuscate_chunks_props:
  "obfuscate_chunks x cs order iv pads js = Inr obs \<Longrightarrow>
     length obs = length js \<and>
     (\<forall>j < length js. \<exists>ob. obs ! j = Some ob \<and> ob_holds ob (chunk_or_placeholder x cs (order ! (js ! j))))"
proof (induction js arbitrary: obs)
  case Nil
  then show ?case by simp
next
  case (Cons i js)
  from Cons.prems obtain ob obs' where
    ob: "NewObfuscatedBufferWithInterval (Some (chunk_or_placeholder x cs (order ! i))) iv (pads i) = Inr ob"
    and rest: "obfuscate_chunks x cs order iv pads js = Inr obs'"
    and obs: "obs = Some ob # obs'"
    by (auto simp: Let_def chunk_or_placeholder_def split: sum.splits)
  from New_inv [OF ob] have h: "ob_holds ob (chunk_or_placeholder x cs (order ! i))" .
  from Cons.IH [OF rest] have IH: "length obs' = length js"
    "\<And>j. j < length js \<Longrightarrow> \<exists>ob. obs' ! j = Some ob \<and> ob_holds ob (chunk_or_placeholder x cs (order ! (js ! j)))"
    by simp_all
  show ?case
  proof (intro conjI allI impI)
    show "length obs = length (i # js)" using obs IH(1) by simp
  next
    fix j assume "j < length (i # js)"
    then show "\<exists>ob. obs ! j = Some ob \<and> ob_holds ob (chunk_or_placeholder x cs (order ! ((i # js) ! j)))"
      using h IH(2) obs by (cases j) simp_all
  qed
qed

lemma fb_place_eq:
  fixes r :: bytes
  assumes h: "fb_scatter_holds fb chunks x" and i: "i < length (fb_chunkOrder fb)" and r: "length r = length x"
  shows "fb_place fb chunks r i = Inr (place_or_skip x (fb_chunkSize fb) r (fb_chunkOrder fb ! i))"
proof -
  let ?cs = "fb_chunkSize fb" and ?og = "fb_chunkOrder fb ! i"
  from h i obtain ob where ch: "chunks ! i = Some ob"
    and ob: "ob_holds ob (chunk_or_placeholder x ?cs ?og)"
    by (auto simp: fb_scatter_holds_def)
  from h i have il: "i < length chunks" and cs: "0 < ?cs" and tot: "fb_totalSize fb = length x"
    by (simp_all add: fb_scatter_holds_def)
  from ob have rd: "ob_Read ob = Inr (chunk_or_placeholder x ?cs ?og)" by (rule ob_holds_Read)
  show ?thesis
  proof (cases "?og * ?cs < length x")
    case True
    from chunk_at_length [OF cs True]
    have len: "length (chunk_at x ?cs ?og) = min (?og * ?cs + ?cs) (length x) - ?og * ?cs" .
    then have pos: "0 < length (chunk_at x ?cs ?og)" using True cs by simp
    then have cp: "chunk_or_placeholder x ?cs ?og = chunk_at x ?cs ?og"
      by (simp add: chunk_or_placeholder_def)
    have e: "?og * ?cs + length (chunk_at x ?cs ?og) = min (?og * ?cs + ?cs) (length x)"
      using len True by simp
    have e2: "min (?og * ?cs + ?cs) (length x) - ?og * ?cs = length (chunk_at x ?cs ?og)"
      using len by simp
    have le: "min (?og * ?cs + ?cs) (length x) \<le> length x" by simp
    show ?thesis
      using True pos il le cs
      by (simp add: fb_place_def ch rd cp tot Let_def place_or_skip_def placed_def e e2)
  next
    case False
    with il show ?thesis
      by (simp add: fb_place_def ch rd tot Let_def place_or_skip_def)
  qed
qed

lemma fb_place_all_eq:
  fixes r :: bytes
  assumes h: "fb_scatter_holds fb chunks x"
  shows "set js \<subseteq> {0..<length (fb_chunkOrder fb)} \<Longrightarrow> length r = length x \<Longrightarrow>
    fb_place_all fb chunks r js
      = Inr (foldl (\<lambda>r i. place_or_skip x (fb_chunkSize fb) r (fb_chunkOrder fb ! i)) r js)"
proof (induction js arbitrary: r)
  case Nil
  then show ?case by simp
next
  case (Cons j js)
  from h have cs: "0 < fb_chunkSize fb" by (simp add: fb_scatter_holds_def)
  from Cons.prems have j: "j < length (fb_chunkOrder fb)" by simp
  from fb_place_eq [OF h j Cons.prems(2)]
  have p: "fb_place fb chunks r j = Inr (place_or_skip x (fb_chunkSize fb) r (fb_chunkOrder fb ! j))" .
  have "length (place_or_skip x (fb_chunkSize fb) r (fb_chunkOrder fb ! j)) = length x"
    using cs Cons.prems(2) by (rule place_or_skip_length)
  with Cons.IH [of "place_or_skip x (fb_chunkSize fb) r (fb_chunkOrder fb ! j)"] Cons.prems(1) p
  show ?case by simp
qed

lemma fb_scatter_read:
  assumes h: "fb_scatter_holds fb chunks x"
  shows "readScatterObfuscate fb chunks = Inr x"
proof -
  from h have cs: "0 < fb_chunkSize fb" and tot: "fb_totalSize fb = length x"
    and cover: "\<And>p. p < length x \<Longrightarrow> p div fb_chunkSize fb \<in> set (fb_chunkOrder fb)"
    by (simp_all add: fb_scatter_holds_def)
  have "readScatterObfuscate fb chunks
        = Inr (foldl (\<lambda>r i. place_or_skip x (fb_chunkSize fb) r (fb_chunkOrder fb ! i))
                 (replicate (length x) 0) [0..<length (fb_chunkOrder fb)])"
    unfolding readScatterObfuscate_def tot
    by (rule fb_place_all_eq [OF h]) simp_all
  also have "\<dots> = Inr x" using reassemble [OF cs cover] by simp
  finally show ?thesis .
qed

lemma init_scatter_holds:
  assumes n: "1 \<le> length x" "length x \<le> MaxBufferSize"
    and tot: "fb_totalSize fb0 = length x"
    and init: "initScatterObfuscate fb0 x opts rnd pads = Inr fb"
  shows "\<exists>chunks. fb_obfuscatedChunks fb = Some chunks \<and> fb_scatter_holds fb chunks x
     \<and> fb_totalSize fb = length x \<and> fb_destroyed fb = fb_destroyed fb0"
proof -
  obtain cs k where lay: "chunk_layout (length x) (ChunkSize opts) = (cs, k)"
    by (cases "chunk_layout (length x) (ChunkSize opts)")
  note L = layout_nat [OF n lay]
  let ?order = "shuffleOrder rnd [0..<nat k]"
  from init lay L(2) obtain obs where
    obs: "obfuscate_chunks x (nat cs) ?order (RotationInterval opts) pads [0..<nat k] = Inr obs"
    and fb: "fb = fb0\<lparr>fb_chunkSize := nat cs, fb_chunkOrder := ?order, fb_obfuscatedChunks := Some obs\<rparr>"
    by (auto simp: initScatterObfuscate_def Let_def split: sum.splits)
  have so: "length ?order = nat k" "set ?order = {0..<nat k}"
    using shuffleOrder_props [of rnd "[0..<nat k]"] by simp_all
  from obfuscate_chunks_props [OF obs]
  have P: "length obs = nat k"
    "\<And>j. j < nat k \<Longrightarrow> \<exists>ob. obs ! j = Some ob \<and> ob_holds ob (chunk_or_placeholder x (nat cs) (?order ! j))"
    by simp_all
  have "fb_scatter_holds fb obs x"
    using L(1) L(3) so P tot by (simp add: fb fb_scatter_holds_def)
  then show ?thesis using tot by (simp add: fb)
qed

lemma fortified_round_trip:
  assumes "NewFortifiedBufferWithOptions (Some x) opts rnd pads = Inr fb"
  shows "fb_Read fb = Inr x \<and> fb_Size fb = length x"
proof -
  from assms have n: "1 \<le> length x" "length x \<le> MaxBufferSize"
    by (auto simp: NewFortifiedBufferWithOptions_def Suc_le_eq split: if_splits)
  then have nn: "x \<noteq> []" "\<not> MaxBufferSize < length x" by auto
  let ?fb0 = "\<lparr>fb_obfuscatedChunks = None, fb_obfuscated = None, fb_scattered = None,
                      fb_chunkOrder = [], fb_chunkSize = 0, fb_totalSize = length x,
                      fb_destroyed = False,
                      fb_useObfuscation = UseObfuscation opts, fb_useScatter = UseScatter opts\<rparr>"
  consider (both) "UseScatter opts" "UseObfuscation opts"
    | (obf) "\<not> UseScatter opts" "UseObfuscation opts"
    | (scat) "UseScatter opts" "\<not> UseObfuscation opts"
    | (raw) "\<not> UseScatter opts" "\<not> UseObfuscation opts" by blast
  then show ?thesis
  proof cases
    case both
    with assms nn have "initScatterObfuscate ?fb0 x opts rnd pads = Inr fb"
      by (simp add: NewFortifiedBufferWithOptions_def Let_def)
    from init_scatter_holds [OF n _ this] obtain chunks where
      "fb_obfuscatedChunks fb = Some chunks" "fb_scatter_holds fb chunks x"
      "fb_totalSize fb = length x" "\<not> fb_destroyed fb" by auto
    then show ?thesis by (simp add: fb_Read_def fb_Size_def fb_scatter_read)
  next
    case obf
    with assms nn obtain ob where
      ob: "NewObfuscatedBufferWithInterval (Some x) (RotationInterval opts) (pads 0) = Inr ob"
      and fb: "fb = ?fb0\<lparr>fb_obfuscated := Some ob\<rparr>"
      by (auto simp: NewFortifiedBufferWithOptions_def Let_def split: sum.splits)
    from New_inv [OF ob] show ?thesis by (simp add: fb fb_Read_def fb_Size_def ob_holds_Read)
  next
    case scat
    with assms nn obtain sb where
      sb: "NewScatteredBufferWithChunkSize (Some x) (ChunkSize opts) rnd = Inr sb"
      and fb: "fb = ?fb0\<lparr>fb_scattered := Some sb\<rparr>"
      by (auto simp: NewFortifiedBufferWithOptions_def Let_def split: sum.splits)
    from New_sb_holds [OF sb] show ?thesis by (simp add: fb fb_Read_def fb_Size_def sb_holds_Read)
  next
    case raw
    with assms nn obtain ob where
      ob: "NewObfuscatedBufferWithInterval (Some x) (RotationInterval opts) (pads 0) = Inr ob"
      and fb: "fb = ?fb0\<lparr>fb_obfuscated := Some ob\<rparr>"
      by (auto simp: NewFortifiedBufferWithOptions_def Let_def split: sum.splits)
    from New_inv [OF ob] show ?thesis by (simp add: fb fb_Read_def fb_Size_def ob_holds_Read)
  qed
qed

lemma ReadFull_None_mono: "ReadFull r m = None \<Longrightarrow> m \<le> n \<Longrightarrow> ReadFull r n = None"
  by (auto simp: ReadFull_def split: option.splits if_splits)

lemma New_obf_cases:
  assumes "d \<noteq> []" "length d \<le> MaxBufferSize"
  shows "(\<exists>ob. NewObfuscatedBufferWithInterval (Some d) iv r = Inr ob \<and> ReadFull r (length d) \<noteq> None)
       \<or> (NewObfuscatedBufferWithInterval (Some d) iv r = Inl ErrRandom \<and> ReadFull r (length d) = None)"
  using assms by (cases "ReadFull r (length d)") (simp_all add: NewObfuscatedBufferWithInterval_def Let_def)

lemma chunk_or_placeholder_bounds:
  assumes "x \<noteq> []"
  shows "chunk_or_placeholder x cs og \<noteq> []" "length (chunk_or_placeholder x cs og) \<le> length x"
proof -
  show "chunk_or_placeholder x cs og \<noteq> []" by (simp add: chunk_or_placeholder_def)
  have "length (chunk_at x cs og) \<le> length x"
    by (simp add: chunk_at_def slice_def Let_def)
  moreover have "1 \<le> length x" using assms by (simp add: Suc_le_eq)
  ultimately show "length (chunk_or_placeholder x cs og) \<le> length x"
    by (simp add: chunk_or_placeholder_def)
qed

lemma obfuscate_chunks_fails:
  assumes x: "x \<noteq> []" "length x \<le> MaxBufferSize"
  shows "obfuscate_chunks x cs order iv pads js = Inl e \<Longrightarrow>
     e = ErrRandom \<and> (\<exists>i \<in> set js. ReadFull (pads i) (length x) = None)"
proof (induction js)
  case Nil
  then show ?case by simp
next
  case (Cons i js)
  let ?c = "chunk_or_placeholder x cs (order ! i)"
  from chunk_or_placeholder_bounds [OF x(1), of cs "order ! i"] x(2)
  have c: "?c \<noteq> []" "length ?c \<le> MaxBufferSize" "length ?c \<le> length x" by simp_all
  from New_obf_cases [OF c(1,2), of iv "pads i"] show ?case
  proof
    assume "\<exists>ob. NewObfuscatedBufferWithInterval (Some ?c) iv (pads i) = Inr ob \<and> ReadFull (pads i) (length ?c) \<noteq> None"
    then obtain ob where "NewObfuscatedBufferWithInterval (Some ?c) iv (pads i) = Inr ob" by blast
    with Cons.prems have "obfuscate_chunks x cs order iv pads js = Inl e"
      by (auto simp: Let_def chunk_or_placeholder_def split: sum.splits)
    from Cons.IH [OF this] show ?thesis by auto
  next
    assume a: "NewObfuscatedBufferWithInterval (Some ?c) iv (pads i) = Inl ErrRandom \<and> ReadFull (pads i) (length ?c) = None"
    with Cons.prems have "e = ErrRandom"
      by (auto simp: Let_def chunk_or_placeholder_def split: sum.splits)
    moreover from a c(3) have "ReadFull (pads i) (length x) = None"
      by (auto intro: ReadFull_None_mono)
    ultimately show ?thesis by auto
  qed
qed

lemma fortified_failure:
  assumes x: "x \<noteq> []" "length x \<le> MaxBufferSize"
    and f: "NewFortifiedBufferWithOptions (Some x) opts rnd pads = Inl e"
  shows "e = ErrRandom \<and> (\<exists>i. ReadFull (pads i) (length x) = None)"
proof -
  from x have n: "1 \<le> length x" "length x \<le> MaxBufferSize" by (simp_all add: Suc_le_eq)
  from x have nn: "x \<noteq> []" "\<not> MaxBufferSize < length x" by auto
  let ?fb0 = "\<lparr>fb_obfuscatedChunks = None, fb_obfuscated = None, fb_scattered = None,
                      fb_chunkOrder = [], fb_chunkSize = 0, fb_totalSize = length x,
                      fb_destroyed = False,
                      fb_useObfuscation = UseObfuscation opts, fb_useScatter = UseScatter opts\<rparr>"
  have single: "NewObfuscatedBufferWithInterval (Some x) (RotationInterval opts) (pads 0) = Inl e
      \<Longrightarrow> ?thesis"
    using New_obf_cases [OF x, of "RotationInterval opts" "pads 0"] by auto
  consider (both) "UseScatter opts" "UseObfuscation opts"
    | (obf) "\<not> UseScatter opts" "UseObfuscation opts"
    | (scat) "UseScatter opts" "\<not> UseObfuscation opts"
    | (raw) "\<not> UseScatter opts" "\<not> UseObfuscation opts" by blast
  then show ?thesis
  proof cases
    case both
    with f nn have i: "initScatterObfuscate ?fb0 x opts rnd pads = Inl e"
      by (simp add: NewFortifiedBufferWithOptions_def Let_def)
    obtain cs k where lay: "chunk_layout (length x) (ChunkSize opts) = (cs, k)"
      by (cases "chunk_layout (length x) (ChunkSize opts)")
    from layout_nat(2) [OF n lay] i lay
    have "obfuscate_chunks x (nat cs) (shuffleOrder rnd [0..<nat k]) (RotationInterval opts) pads [0..<nat k] = Inl e"
      by (auto simp: initScatterObfuscate_def Let_def split: sum.splits)
    from obfuscate_chunks_fails [OF x this] show ?thesis by auto
  next
    case obf
    with f nn show ?thesis
      by (intro single) (auto simp: NewFortifiedBufferWithOptions_def Let_def split: sum.splits)
  next
    case scat
    obtain cs k where lay: "chunk_layout (length x) (ChunkSize opts) = (cs, k)"
      by (cases "chunk_layout (length x) (ChunkSize opts)")
    from layout_nat(2) [OF n lay] lay nn
    have "\<exists>sb. NewScatteredBufferWithChunkSize (Some x) (ChunkSize opts) rnd = Inr sb"
      by (simp add: NewScatteredBufferWithChunkSize_def Let_def)
    with scat f nn show ?thesis
      by (auto simp: NewFortifiedBufferWithOptions_def Let_def split: sum.splits)
  next
    case raw
    with f nn show ?thesis
      by (intro single) (auto simp: NewFortifiedBufferWithOptions_def Let_def split: sum.splits)
  qed
qed

text \<open>
  Claim C1.  For every non-empty input \<open>x\<close> of at most \<open>MaxBufferSize\<close> (100 MiB, which
  covers \<open>1 \<le> n \<le> 1 MiB\<close>) and every combination of options (obfuscation, scatter,
  rotation interval, chunk size, the last one over the whole \<open>int\<close> range), whatever the
  random reads deliver: if \<open>NewFortifiedBufferWithOptions\<close> returns a buffer then \<open>Read\<close>
  returns \<open>x\<close> and \<open>Size\<close> returns the length of \<open>x\<close>; and it returns a buffer unless
  the read of a pad failed, in which case it returns that read's error.
\<close>

theorem FortifiedBuffer_round_trip:
  assumes "x \<noteq> []" and "length x \<le> MaxBufferSize"
  shows "case NewFortifiedBufferWithOptions (Some x) opts rnd pads of
           Inr fb \<Rightarrow> fb_Read fb = Inr x \<and> fb_Size fb = length x
         | Inl e \<Rightarrow> e = ErrRandom \<and> (\<exists>i. ReadFull (pads i) (length x) = None)"
proof (cases "NewFortifiedBufferWithOptions (Some x) opts rnd pads")
  case (Inl e)
  from fortified_failure [OF assms Inl] Inl show ?thesis by simp
next
  case (Inr fb)
  from fortified_round_trip [OF Inr] Inr show ?thesis by simp
qed

theorem FortifiedBuffer_round_trip_witness:
  "[1, 2, 3, 4, 5 :: byte] \<noteq> [] \<and> length [1, 2, 3, 4, 5 :: byte] \<le> MaxBufferSize
   \<and> (\<exists>fb. NewFortifiedBufferWithOptions (Some [1, 2, 3, 4, 5]) DefaultFortifiedOptions
              (\<lambda>i. None) (\<lambda>i. Some [9, 8, 7, 6, 5]) = Inr fb
          \<and> fb_Read fb = Inr [1, 2, 3, 4, 5] \<and> fb_Size fb = 5)"
proof -
  have h1: "[1, 2, 3, 4, 5 :: byte] \<noteq> []" by simp
  have h2: "length [1, 2, 3, 4, 5 :: byte] \<le> MaxBufferSize" by (simp add: MaxBufferSize_def)
  have ok: "ReadFull (Some [9, 8, 7, 6, 5]) (length [1, 2, 3, 4, 5 :: byte]) \<noteq> None"
    by (simp add: ReadFull_def)
  from FortifiedBuffer_round_trip [OF h1 h2, where opts = DefaultFortifiedOptions
      and rnd = "\<lambda>i. None" and pads = "\<lambda>i. Some [9, 8, 7, 6, 5]"] ok
  have "\<exists>fb. NewFortifiedBufferWithOptions (Some [1, 2, 3, 4, 5]) DefaultFortifiedOptions
              (\<lambda>i. None) (\<lambda>i. Some [9, 8, 7, 6, 5]) = Inr fb
          \<and> fb_Read fb = Inr [1, 2, 3, 4, 5] \<and> fb_Size fb = 5"
    by (cases "NewFortifiedBufferWithOptions (Some [1, 2, 3, 4, 5]) DefaultFortifiedOptions
              (\<lambda>i. None) (\<lambda>i. Some [9, 8, 7, 6, 5])") auto
  with h1 h2 show ?thesis by blast
qed

text \<open>
  Claim C6.  For every non-empty input \<open>x\<close> (of at most \<open>MaxBufferSize\<close> bytes) whose
  first pad could be read, the constructor returns a buffer, and after every finite
  sequence of rotation ticks, each with an arbitrary new pad or a failed random read
  (which keeps the current pad), \<open>Read\<close> returns \<open>x\<close>.
\<close>

theorem ObfuscatedBuffer_read_after_rotations:
  assumes "x \<noteq> []" and "length x \<le> MaxBufferSize" and "ReadFull r (length x) \<noteq> None"
  shows "\<exists>ob. NewObfuscatedBufferWithInterval (Some x) iv r = Inr ob
          \<and> (\<forall>rs. \<exists>ob'. rotations ob rs = Inr ob' \<and> ob_Read ob' = Inr x)"
proof -
  from New_obf_cases [OF assms(1,2), of iv r] assms(3)
  obtain ob where ob: "NewObfuscatedBufferWithInterval (Some x) iv r = Inr ob" by auto
  have "\<exists>ob'. rotations ob rs = Inr ob' \<and> ob_Read ob' = Inr x" for rs
    using rotations_inv [OF New_inv [OF ob], of rs] by (auto dest: ob_holds_Read)
  with ob show ?thesis by blast
qed

theorem ObfuscatedBuffer_read_after_rotations_witness:
  "[1, 2, 3 :: byte] \<noteq> [] \<and> length [1, 2, 3 :: byte] \<le> MaxBufferSize
   \<and> ReadFull (Some [7, 7, 7]) (length [1, 2, 3 :: byte]) \<noteq> None
   \<and> (\<exists>ob. NewObfuscatedBufferWithInterval (Some [1, 2, 3]) 0 (Some [7, 7, 7]) = Inr ob
        \<and> (\<exists>ob'. rotations ob [None, Some [9, 9, 9]] = Inr ob' \<and> ob_Read ob' = Inr [1, 2, 3]))"
proof -
  have h1: "[1, 2, 3 :: byte] \<noteq> []" by simp
  have h2: "length [1, 2, 3 :: byte] \<le> MaxBufferSize" by (simp add: MaxBufferSize_def)
  have h3: "ReadFull (Some [7, 7, 7]) (length [1, 2, 3 :: byte]) \<noteq> None" by (simp add: ReadFull_def)
  from ObfuscatedBuffer_read_after_rotations [OF h1 h2 h3, where iv = 0] h1 h2 h3
  show ?thesis by blast
qed

lemma chunk_layout_5: "chunk_layout (Suc (Suc (Suc (Suc (Suc 0))))) 256 = (2, 3)"
  by (simp add: chunk_layout_def DefaultChunkSize_def wrap64_def signed_divide_int_def Let_def)

text \<open>
  Claim C5 says that every non-empty input gives at least four chunks, and the comment
  in the constructor says the same (\<open>Force at least 4 chunks\<close>).  The code computes the
  chunk size \<open>(n + 3) / 4\<close> and then \<open>ceil(n / chunkSize)\<close> chunks, which is below four for
  \<open>n = 1, 2, 3, 5, 6, 9\<close>.  At five bytes and the default chunk size the buffer has
  three chunks, whatever the shuffle draws.
\<close>

theorem ScatteredBuffer_five_bytes_three_chunks:
  "\<exists>sb. NewScatteredBufferWithChunkSize (Some [1, 2, 3, 4, 5]) 256 rnd = Inr sb \<and> ChunkCount sb = 3"
proof -
  have "length (shuffleOrder rnd [0..<3]) = 3"
    using shuffleOrder_props [of rnd "[0..<3]"] by simp
  then show ?thesis
    by (simp add: NewScatteredBufferWithChunkSize_def chunk_layout_5 MaxBufferSize_def
        ChunkCount_def Let_def)
qed

text \<open>Where the computation does reach four chunks: every input whose length is not one
  of 1, 2, 3, 5, 6, 9, whatever chunk size is asked for.\<close>

lemma chunk_layout_branch:
  assumes n: "1 \<le> n" "n \<le> MaxBufferSize" and lay: "chunk_layout n c = (cs, k)"
  shows "4 \<le> k \<or> cs = (int n + 3) div 4"
proof -
  define c0 where "c0 = (if sint c \<le> 0 then DefaultChunkSize else sint c)"
  define k0 where "k0 = wrap64 (wrap64 (int n + c0) - 1) sdiv c0"
  have nb: "int n \<le> 104857600" using n by (simp add: MaxBufferSize_def)
  have cs4: "wrap64 (int n + 3) sdiv 4 = (int n + 3) div 4"
    using nb by (simp add: wrap64_id sdiv_nonneg)
  have "1 \<le> (int n + 3) div 4" using n by simp
  with lay cs4 show ?thesis
    by (cases "k0 < 4")
      (auto simp: chunk_layout_def Let_def c0_def [symmetric] k0_def [symmetric])
qed

lemma four_chunks_arith:
  fixes n :: int
  assumes "1 \<le> n" "n \<notin> {1, 2, 3, 5, 6, 9}"
  shows "4 \<le> (n + (n + 3) div 4 - 1) div ((n + 3) div 4)"
proof -
  define q where "q = (n + 3) div 4"
  have q: "1 \<le> q" using assms(1) by (simp add: q_def)
  have "3 * q + 1 \<le> n" using assms unfolding q_def by auto presburger
  then have "4 * q \<le> n + q - 1" by simp
  then have "(4 * q) div q \<le> (n + q - 1) div q" using q by (intro zdiv_mono1) simp_all
  with q show ?thesis by (simp add: q_def)
qed

lemma ChunkCount_at_least_four:
  assumes "NewScatteredBufferWithChunkSize (Some x) c rnd = Inr sb"
    and "length x \<notin> {1, 2, 3, 5, 6, 9}"
  shows "4 \<le> ChunkCount sb"
proof -
  from assms(1) have n: "1 \<le> length x" "length x \<le> MaxBufferSize"
    by (auto simp: NewScatteredBufferWithChunkSize_def Suc_le_eq split: if_splits)
  then have nn: "x \<noteq> []" "\<not> MaxBufferSize < length x" by auto
  obtain cs k where lay: "chunk_layout (length x) c = (cs, k)" by (cases "chunk_layout (length x) c")
  from chunk_layout_ceil [OF n lay] have cs: "1 \<le> cs" and k: "k = (int (length x) + cs - 1) div cs"
    by simp_all
  have k4: "4 \<le> k"
  proof (rule disjE [OF chunk_layout_branch [OF n lay]])
    assume "cs = (int (length x) + 3) div 4"
    moreover have "int (length x) \<notin> {1, 2, 3, 5, 6, 9}" using assms(2) by auto
    ultimately show ?thesis
      using four_chunks_arith [of "int (length x)"] n(1) unfolding k by simp
  qed
  then have k0: "0 \<le> k" by simp
  from assms(1) nn lay k0
  have "length (sb_chunks sb) = nat k \<and> \<not> sb_destroyed sb"
    by (auto simp: NewScatteredBufferWithChunkSize_def Let_def)
  with k4 show ?thesis by (simp add: ChunkCount_def)
qed

section \<open>Verification: tripwire\<close>





lemma tw_run_append:
  "tw_run t (xs @ ys) =
     (case tw_run t xs of (t', ev) \<Rightarrow> (case tw_run t' ys of (t'', ev') \<Rightarrow> (t'', ev @ ev')))"
  by (induction xs arbitrary: t) (auto split: prod.splits)










section \<open>Verification: session manager\<close>

lemma xor_zero_eq:
  fixes p q :: byte
  assumes "p XOR q = 0"
  shows "p = q"
proof -
  have "q = (p XOR p) XOR q" by simp
  also have "\<dots> = p XOR (p XOR q)" by (simp only: xor.assoc)
  also have "\<dots> = p" using assms by simp
  finally show ?thesis by simp
qed

lemma or_fold_zero:
  fixes v :: byte
  shows "foldl (\<lambda>v (p, q). v OR (p XOR q)) v ps = 0 \<longleftrightarrow> v = 0 \<and> (\<forall>(p, q) \<in> set ps. p = q)"
proof (induction ps arbitrary: v)
  case Nil
  then show ?case by simp
next
  case (Cons a ps)
  obtain p q where a: "a = (p, q)" by (cases a)
  have "v OR (p XOR q) = 0 \<longleftrightarrow> v = 0 \<and> p = q"
    by (auto simp: or_eq_0_iff dest: xor_zero_eq)
  with Cons a show ?case by auto
qed

lemma zip_all_eq: "length a = length b \<Longrightarrow> (\<forall>(p, q) \<in> set (zip a b). p = q) \<longleftrightarrow> a = b"
  by (induction a b rule: list_induct2) auto

lemma ConstantTimeCompare_eq: "ConstantTimeCompare a b \<longleftrightarrow> a = b"
proof (cases "length a = length b")
  case True
  then show ?thesis
    by (simp add: ConstantTimeCompare_def subtle_ConstantTimeCompare_def or_fold_zero zip_all_eq)
next
  case False
  then show ?thesis
    by (auto simp: ConstantTimeCompare_def subtle_ConstantTimeCompare_def)
qed

text \<open>
  Claim C2.  For a manager that holds a session, a key hash of 32 bytes and a salt of at
  least 16 bytes: when \<open>Lock\<close> succeeds, \<open>IsLocked\<close> is true, \<open>GetSalt\<close> returns the salt
  (a copy: the model has values, not slices) and \<open>Unlock\<close> would succeed; and whenever
  \<open>Unlock\<close> succeeds, from any state of a manager, the session was locked, and afterwards
  \<open>IsLocked\<close> is false and \<open>GetSalt\<close> returns \<open>nil\<close>.
\<close>

theorem Session_lock_then_unlock:
  assumes "sm_session sm = Some s" and "length keyHash = 32" and "16 \<le> length salt"
    and "Lock sm keyHash salt gen now0 now = (None, sm1, ev1)"
    and "Unlock sm' = (None, sm2, ev2)"
  shows "IsLocked sm1 \<and> GetSalt sm1 = Some salt \<and> fst (Unlock sm1) = None
       \<and> IsLocked sm' \<and> \<not> IsLocked sm2 \<and> GetSalt sm2 = None"
proof -
  from assms(1,4) have
    sm1: "sm1 = sm\<lparr>sm_session := Some (s\<lparr>s_keyHash := Some keyHash, s_salt := Some salt,
                       s_locked := True, s_lockedAt := now\<rparr>)\<rparr>"
    by (auto simp: Lock_def Let_def split: if_splits)
  have a: "IsLocked sm1 \<and> GetSalt sm1 = Some salt \<and> fst (Unlock sm1) = None"
    by (simp add: sm1 IsLocked_def GetSalt_def Unlock_def Let_def)
  from assms(5) have c: "IsLocked sm' \<and> \<not> IsLocked sm2 \<and> GetSalt sm2 = None"
    by (auto simp: Unlock_def Let_def IsLocked_def GetSalt_def split: option.splits if_splits)
  from a c show ?thesis by simp
qed

theorem Session_lock_then_unlock_witness:
  "sm_session \<lparr>sm_session = Some (new_session ''tok'' 7 :: nat Session)\<rparr>
     = Some (new_session ''tok'' 7)
   \<and> length (replicate 32 (17 :: byte)) = 32 \<and> 16 \<le> length (replicate 16 (34 :: byte))
   \<and> Lock \<lparr>sm_session = Some (new_session ''tok'' 7 :: nat Session)\<rparr>
        (replicate 32 17) (replicate 16 34) None 8 9
      = (None,
         \<lparr>sm_session = Some \<lparr>s_token = ''tok'', s_locked = True, s_createdAt = 7, s_lockedAt = 9,
            s_keyHash = Some (replicate 32 17), s_salt = Some (replicate 16 34),
            s_onLock = None, s_onUnlock = None\<rparr>\<rparr>, [])
   \<and> Unlock \<lparr>sm_session = Some \<lparr>s_token = ''tok'', s_locked = True, s_createdAt = 7, s_lockedAt = 9,
            s_keyHash = Some (replicate 32 17), s_salt = Some (replicate 16 34),
            s_onLock = None, s_onUnlock = (None :: nat option)\<rparr>\<rparr>
      = (None,
         \<lparr>sm_session = Some \<lparr>s_token = ''tok'', s_locked = False, s_createdAt = 7, s_lockedAt = 0,
            s_keyHash = None, s_salt = None, s_onLock = None, s_onUnlock = None\<rparr>\<rparr>, [])
   \<and> GetSalt \<lparr>sm_session = Some \<lparr>s_token = ''tok'', s_locked = True, s_createdAt = 7, s_lockedAt = 9,
            s_keyHash = Some (replicate 32 17), s_salt = Some (replicate 16 34),
            s_onLock = None, s_onUnlock = (None :: nat option)\<rparr>\<rparr> = Some (replicate 16 34)
   \<and> \<not> IsLocked \<lparr>sm_session = Some \<lparr>s_token = ''tok'', s_locked = False, s_createdAt = 7, s_lockedAt = 0,
            s_keyHash = None, s_salt = None, s_onLock = None, s_onUnlock = (None :: nat option)\<rparr>\<rparr>"
proof -
  let ?sm = "\<lparr>sm_session = Some (new_session ''tok'' 7 :: nat Session)\<rparr>"
  let ?sm1 = "\<lparr>sm_session = Some \<lparr>s_token = ''tok'', s_locked = True, s_createdAt = 7, s_lockedAt = 9,
            s_keyHash = Some (replicate 32 17), s_salt = Some (replicate 16 34),
            s_onLock = None, s_onUnlock = (None :: nat option)\<rparr>\<rparr>"
  let ?sm2 = "\<lparr>sm_session = Some \<lparr>s_token = ''tok'', s_locked = False, s_createdAt = 7, s_lockedAt = 0,
            s_keyHash = None, s_salt = None, s_onLock = None, s_onUnlock = (None :: nat option)\<rparr>\<rparr>"
  have h1: "sm_session ?sm = Some (new_session ''tok'' 7)" by simp
  have h2: "length (replicate 32 (17 :: byte)) = 32" by simp
  have h3: "16 \<le> length (replicate 16 (34 :: byte))" by simp
  have h4: "Lock ?sm (replicate 32 17) (replicate 16 34) None 8 9 = (None, ?sm1, [])"
    by (simp add: Lock_def new_session_def Let_def)
  have h5: "Unlock ?sm1 = (None, ?sm2, [])"
    by (simp add: Unlock_def Let_def)
  from Session_lock_then_unlock [OF h1 h2 h3 h4 h5] h1 h2 h3 h4 h5 show ?thesis by simp
qed

text \<open>
  Claim C7.  On a locked session with stored key hash \<open>h\<close>, \<open>VerifyKeyHash c\<close> returns
  \<open>nil\<close> when \<open>c = h\<close> and \<open>ErrInvalidPassword\<close> otherwise; with no session, or a session
  that is not locked, it returns \<open>ErrSessionNotLocked\<close>.  In every case the manager, and
  with it every field of the session, is as before.
\<close>

theorem VerifyKeyHash_locked:
  "(sm_session sm = Some s \<and> s_locked s \<and> s_keyHash s = Some h \<longrightarrow>
      VerifyKeyHash sm c = ((if c = h then None else Some ErrInvalidPassword), sm))
   \<and> (sm_session sm = None \<or> (sm_session sm = Some s \<and> \<not> s_locked s) \<longrightarrow>
      VerifyKeyHash sm c = (Some ErrSessionNotLocked, sm))"
  by (auto simp: VerifyKeyHash_def ConstantTimeCompare_eq)

theorem VerifyKeyHash_locked_witness:
  "VerifyKeyHash \<lparr>sm_session = Some \<lparr>s_token = ''tok'', s_locked = True, s_createdAt = 7, s_lockedAt = 9,
            s_keyHash = Some (replicate 32 17), s_salt = Some (replicate 16 34),
            s_onLock = None, s_onUnlock = (None :: nat option)\<rparr>\<rparr> (replicate 32 17)
     = (None, \<lparr>sm_session = Some \<lparr>s_token = ''tok'', s_locked = True, s_createdAt = 7, s_lockedAt = 9,
            s_keyHash = Some (replicate 32 17), s_salt = Some (replicate 16 34),
            s_onLock = None, s_onUnlock = None\<rparr>\<rparr>)
   \<and> VerifyKeyHash \<lparr>sm_session = Some \<lparr>s_token = ''tok'', s_locked = True, s_createdAt = 7, s_lockedAt = 9,
            s_keyHash = Some (replicate 32 17), s_salt = Some (replicate 16 34),
            s_onLock = None, s_onUnlock = (None :: nat option)\<rparr>\<rparr> (replicate 32 0)
     = (Some ErrInvalidPassword,
        \<lparr>sm_session = Some \<lparr>s_token = ''tok'', s_locked = True, s_createdAt = 7, s_lockedAt = 9,
            s_keyHash = Some (replicate 32 17), s_salt = Some (replicate 16 34),
            s_onLock = None, s_onUnlock = None\<rparr>\<rparr>)
   \<and> VerifyKeyHash (NewSessionManager :: nat SessionManager) (replicate 32 17)
     = (Some ErrSessionNotLocked, NewSessionManager)"
proof -
  let ?s = "\<lparr>s_token = ''tok'', s_locked = True, s_createdAt = 7, s_lockedAt = 9,
            s_keyHash = Some (replicate 32 (17 :: byte)), s_salt = Some (replicate 16 (34 :: byte)),
            s_onLock = None, s_onUnlock = (None :: nat option)\<rparr>"
  have ne: "replicate 32 (0 :: byte) \<noteq> replicate 32 17"
    by (simp add: replicate_eq_replicate)
  have a: "sm_session \<lparr>sm_session = Some ?s\<rparr> = Some ?s \<and> s_locked ?s \<and> s_keyHash ?s = Some (replicate 32 17)"
    by simp
  have b: "sm_session (NewSessionManager :: nat SessionManager) = None"
    by (simp add: NewSessionManager_def)
  from VerifyKeyHash_locked [of "\<lparr>sm_session = Some ?s\<rparr>" ?s "replicate 32 17" "replicate 32 17"]
    VerifyKeyHash_locked [of "\<lparr>sm_session = Some ?s\<rparr>" ?s "replicate 32 17" "replicate 32 0"]
    VerifyKeyHash_locked [of "NewSessionManager :: nat SessionManager" ?s "replicate 32 17" "replicate 32 17"]
    a b ne
  show ?thesis by simp
qed

text \<open>
  Claim C10.  For a manager that holds a session \<open>s\<close>, a successful \<open>Lock\<close> and a
  successful \<open>Unlock\<close> leave a session that is \<open>s\<close> with new values in \<open>keyHash\<close>, \<open>salt\<close>,
  \<open>locked\<close> and \<open>lockedAt\<close> only; \<open>GetToken\<close> and \<open>Status().CreatedAt\<close> return what they
  returned before.
\<close>

theorem Session_lock_unlock_frame:
  assumes "sm_session sm = Some s"
  shows "(Lock sm keyHash salt gen now0 now = (None, sm1, ev1) \<longrightarrow>
            GetToken sm1 = GetToken sm \<and> st_CreatedAt (Status sm1) = st_CreatedAt (Status sm)
            \<and> sm_session sm1 = Some (s\<lparr>s_keyHash := Some keyHash, s_salt := Some salt,
                                        s_locked := True, s_lockedAt := now\<rparr>))
       \<and> (Unlock sm = (None, sm2, ev2) \<longrightarrow>
            GetToken sm2 = GetToken sm \<and> st_CreatedAt (Status sm2) = st_CreatedAt (Status sm)
            \<and> sm_session sm2 = Some (s\<lparr>s_keyHash := None, s_salt := None,
                                        s_locked := False, s_lockedAt := 0\<rparr>))"
  using assms
  by (auto simp: Lock_def Unlock_def Let_def GetToken_def Status_def split: if_splits)

theorem Session_lock_unlock_frame_witness:
  "GetToken \<lparr>sm_session = Some (new_session ''tok'' 7 :: nat Session)\<rparr> = ''tok''
   \<and> GetToken (fst (snd (Lock \<lparr>sm_session = Some (new_session ''tok'' 7 :: nat Session)\<rparr>
        (replicate 32 17) (replicate 16 34) (Some ''other'') 8 9))) = ''tok''
   \<and> st_CreatedAt (Status (fst (snd (Lock \<lparr>sm_session = Some (new_session ''tok'' 7 :: nat Session)\<rparr>
        (replicate 32 17) (replicate 16 34) (Some ''other'') 8 9)))) = 7
   \<and> GetToken (fst (snd (Unlock \<lparr>sm_session = Some \<lparr>s_token = ''tok'', s_locked = True,
            s_createdAt = 7, s_lockedAt = 9,
            s_keyHash = Some (replicate 32 17), s_salt = Some (replicate 16 34),
            s_onLock = None, s_onUnlock = (None :: nat option)\<rparr>\<rparr>))) = ''tok''
   \<and> st_CreatedAt (Status (fst (snd (Unlock \<lparr>sm_session = Some \<lparr>s_token = ''tok'', s_locked = True,
            s_createdAt = 7, s_lockedAt = 9,
            s_keyHash = Some (replicate 32 17), s_salt = Some (replicate 16 34),
            s_onLock = None, s_onUnlock = (None :: nat option)\<rparr>\<rparr>)))) = 7"
proof -
  let ?sm = "\<lparr>sm_session = Some (new_session ''tok'' 7 :: nat Session)\<rparr>"
  let ?s1 = "\<lparr>s_token = ''tok'', s_locked = True, s_createdAt = 7, s_lockedAt = 9,
            s_keyHash = Some (replicate 32 (17 :: byte)), s_salt = Some (replicate 16 (34 :: byte)),
            s_onLock = None, s_onUnlock = (None :: nat option)\<rparr>"
  let ?sm1 = "\<lparr>sm_session = Some ?s1\<rparr>"
  let ?sm2 = "\<lparr>sm_session = Some \<lparr>s_token = ''tok'', s_locked = False, s_createdAt = 7, s_lockedAt = 0,
            s_keyHash = None, s_salt = None, s_onLock = None, s_onUnlock = (None :: nat option)\<rparr>\<rparr>"
  have h1: "sm_session ?sm = Some (new_session ''tok'' 7)" by simp
  have h2: "sm_session ?sm1 = Some ?s1" by simp
  have l: "Lock ?sm (replicate 32 17) (replicate 16 34) (Some ''other'') 8 9 = (None, ?sm1, [])"
    by (simp add: Lock_def new_session_def Let_def)
  have u: "Unlock ?sm1 = (None, ?sm2, [])"
    by (simp add: Unlock_def Let_def)
  have g: "GetToken ?sm = ''tok''" "GetToken ?sm1 = ''tok''"
    "st_CreatedAt (Status ?sm) = 7" "st_CreatedAt (Status ?sm1) = 7"
    by (simp_all add: GetToken_def Status_def new_session_def)
  from Session_lock_unlock_frame [OF h1, of "replicate 32 17" "replicate 16 34" "Some ''other''" 8 9 ?sm1 "[]"] l
  have a: "GetToken ?sm1 = GetToken ?sm \<and> st_CreatedAt (Status ?sm1) = st_CreatedAt (Status ?sm)"
    by blast
  from Session_lock_unlock_frame [OF h2, where ?sm2.0 = ?sm2 and ?ev2.0 = "[]"] u
  have b: "GetToken ?sm2 = GetToken ?sm1 \<and> st_CreatedAt (Status ?sm2) = st_CreatedAt (Status ?sm1)"
    by blast
  from a b g l u show ?thesis by simp
qed

section \<open>Verification: stores\<close>

lemma Allocate_failed_same: "Allocate m n = (Some e, m') \<Longrightarrow> m' = m"
  by (auto simp: Allocate_def split: if_splits)

lemma Allocate_Free_cancel:
  assumes "0 \<le> sint (allocated m)" "Allocate m n = (None, m')"
  shows "Free m' n = m"
proof (cases "sint n \<le> 0")
  case True
  with assms show ?thesis by (simp add: Allocate_def Free_def)
next
  case False
  with assms(2) have m': "m' = m\<lparr>allocated := allocated m + n\<rparr>"
    by (auto simp: Allocate_def split: if_splits)
  have "allocated m + n - n = allocated m" by simp
  with False assms(1) show ?thesis by (simp add: m' Free_def Let_def)
qed

lemma mem_Allocate_failed_same: "mem_Allocate mem n = (Some e, mem') \<Longrightarrow> mem' = mem"
  by (auto simp: mem_Allocate_def split: option.splits prod.splits dest: Allocate_failed_same)

lemma mem_Allocate_Free_cancel:
  "mem_nonneg mem \<Longrightarrow> mem_Allocate mem n = (None, mem') \<Longrightarrow> mem_Free mem' n = mem"
  by (auto simp: mem_nonneg_def mem_Allocate_def mem_Free_def
      split: option.splits prod.splits dest: Allocate_Free_cancel)

text \<open>
  Claim C4.  Whenever \<open>Store\<close> returns an error (a rejected file name, a file that is too
  large, a full tracker, a failed id generation or a failed buffer construction), on a
  store whose tracker is \<open>nil\<close> or has a counter that is not negative, the store after the
  call is the store before it: the counter of the tracker has its old value and no entry
  was inserted.
\<close>

theorem Store_error_restores_tracker:
  assumes "Store fs env filename mimeType content = (Inl e, fs')" and "mem_nonneg (fs_memory fs)"
  shows "fs_memory fs' = fs_memory fs \<and> fs_files fs' = fs_files fs \<and> fs' = fs"
proof -
  have "fs' = fs"
  proof (cases "env_Filename env filename")
    case None
    with assms(1) show ?thesis by (simp add: Store_def)
  next
    case (Some filename')
    define contentLen :: int64
      where "contentLen = word_of_nat (case content of None \<Rightarrow> 0 | Some d \<Rightarrow> length d)"
    show ?thesis
    proof (cases "sint contentLen > sint (fs_maxFileSize fs)")
      case True
      with assms(1) Some show ?thesis by (simp add: Store_def contentLen_def Let_def)
    next
      case small: False
      obtain r mem1 where al: "mem_Allocate (fs_memory fs) contentLen = (r, mem1)"
        by (cases "mem_Allocate (fs_memory fs) contentLen")
      show ?thesis
      proof (cases r)
        case (Some err)
        with al have "mem1 = fs_memory fs" by (auto dest: mem_Allocate_failed_same)
        with assms(1) \<open>env_Filename env filename = Some filename'\<close> small al Some
        show ?thesis by (simp add: Store_def contentLen_def [symmetric] Let_def)
      next
        case None
        with al assms(2) have restored: "mem_Free mem1 contentLen = fs_memory fs"
          by (auto dest: mem_Allocate_Free_cancel)
        from assms(1) \<open>env_Filename env filename = Some filename'\<close> small al None
        have "fs' = fs\<lparr>fs_memory := mem_Free mem1 contentLen\<rparr>"
          by (auto simp: Store_def contentLen_def [symmetric] Let_def split: option.splits sum.splits)
        with restored show ?thesis by simp
      qed
    qed
  qed
  then show ?thesis by simp
qed

theorem Store_error_restores_tracker_witness:
  "mem_nonneg (Some \<lparr>allocated = 716800, limit = 1048576\<rparr>)
   \<and> Store \<lparr>fs_files = [], fs_maxFileSize = 104857600, fs_expiry = 1000000000,
             fs_memory = Some \<lparr>allocated = 716800, limit = 1048576\<rparr>\<rparr>
        \<lparr>env_Filename = Some, env_MIMETypeOrDefault = (\<lambda>m d. m), env_GenerateFileID = Some ''00000000000000aa'',
         env_now = 0, env_shuffle = (\<lambda>i. None), env_pads = (\<lambda>i. None)\<rparr>
        ''b.bin'' ''application/octet-stream'' (Some (replicate 716800 65))
      = (Inl ErrStorageFull,
         \<lparr>fs_files = [], fs_maxFileSize = 104857600, fs_expiry = 1000000000,
          fs_memory = Some \<lparr>allocated = 716800, limit = 1048576\<rparr>\<rparr>)"
proof -
  let ?fs = "\<lparr>fs_files = [], fs_maxFileSize = 104857600, fs_expiry = 1000000000,
             fs_memory = Some \<lparr>allocated = 716800, limit = 1048576\<rparr>\<rparr>"
  let ?env = "\<lparr>env_Filename = Some, env_MIMETypeOrDefault = (\<lambda>m d. m), env_GenerateFileID = Some ''00000000000000aa'',
         env_now = 0, env_shuffle = (\<lambda>i. None), env_pads = (\<lambda>i. None)\<rparr>"
  have h: "mem_nonneg (fs_memory ?fs)" by (simp add: mem_nonneg_def)
  obtain r fs' where st: "Store ?fs ?env ''b.bin'' ''application/octet-stream'' (Some (replicate 716800 65)) = (r, fs')"
    by (cases "Store ?fs ?env ''b.bin'' ''application/octet-stream'' (Some (replicate 716800 65))")
  have r: "r = Inl ErrStorageFull"
    using st by (simp add: Store_def mem_Allocate_def Allocate_def Let_def)
  from Store_error_restores_tracker [OF st [unfolded r] h] have "fs' = ?fs" by simp
  with st r h show ?thesis by simp
qed

text \<open>
  Claim C8 says that deleting an entry lowers the counter of the tracker by the recorded
  size of the entry.  \<open>Store\<close> and \<open>SetText\<close> reserve the bytes of an entry with
  \<open>Allocate\<close>, but \<open>SetEncryptedText\<close>, \<open>SetEncryptedImage\<close>, \<open>AddEncryptedFile\<close> and
  \<open>SetEncryptedFiles\<close> insert entries with a recorded size and reserve nothing, while
  \<open>shredEntry\<close> and \<open>shredFile\<close> free the recorded size of every entry.  On a tracker with
  nothing allocated, a ciphertext of 120 bytes set with \<open>SetEncryptedText\<close> has recorded size
  120; \<open>DeleteText\<close> removes it and the counter is 0 before and after.
\<close>

theorem Clipboard_delete_encrypted_entry:
  "cs_text (SetEncryptedText
      \<lparr>cs_text = None, cs_image = None, cs_expiry = 3600000000000,
       cs_memory = Some \<lparr>allocated = 0, limit = 1048576\<rparr>\<rparr> (replicate 120 65) 5 5)
     = Some \<lparr>ce_data = None, ce_encrypted = Some (replicate 120 65),
             ce_contentType = ClipboardTypeText, ce_mimeType = [], ce_size = 120,
             ce_createdAt = 5, ce_expiresAt = 3600000000005\<rparr>
   \<and> cs_memory (SetEncryptedText
      \<lparr>cs_text = None, cs_image = None, cs_expiry = 3600000000000,
       cs_memory = Some \<lparr>allocated = 0, limit = 1048576\<rparr>\<rparr> (replicate 120 65) 5 5)
     = Some \<lparr>allocated = 0, limit = 1048576\<rparr>
   \<and> DeleteText (SetEncryptedText
      \<lparr>cs_text = None, cs_image = None, cs_expiry = 3600000000000,
       cs_memory = Some \<lparr>allocated = 0, limit = 1048576\<rparr>\<rparr> (replicate 120 65) 5 5)
     = \<lparr>cs_text = None, cs_image = None, cs_expiry = 3600000000000,
        cs_memory = Some \<lparr>allocated = 0, limit = 1048576\<rparr>\<rparr>"
  by (simp add: SetEncryptedText_def DeleteText_def shredEntry_def mem_Free_def Free_def Let_def)

lemma map_of_files_delete: "map_of (files_delete k fl) k = None"
  by (induction fl) (auto simp: files_delete_def)

lemma Delete_existing:
  assumes "vid id0 = Some fid" "map_of (fs_files fs) fid = Some file"
  shows "Delete fs vid id0
           = (None, fs\<lparr>fs_files := files_delete fid (fs_files fs),
                        fs_memory := mem_Free (fs_memory fs) (sf_Size file)\<rparr>)"
    and "fst (Delete (snd (Delete fs vid id0)) vid id0) = Some ErrFileNotFound"
    and "snd (Delete (snd (Delete fs vid id0)) vid id0) = snd (Delete fs vid id0)"
  using assms by (simp_all add: Delete_def shredFile_def map_of_files_delete)

text \<open>
  The same in the file store, with a plaintext file present.  The tracker holds the 100
  bytes of the plaintext file \<open>aa\<close>; an encrypted file \<open>bb\<close> of recorded size 100 is added
  (nothing is reserved for it) and deleted again: the counter drops to 0 while \<open>aa\<close> is
  still stored, so deleting \<open>aa\<close> later cannot lower it by 100.
\<close>

lemma FileStore_delete_after_encrypted_entry:
  "fs_memory (snd (Delete
      (AddEncryptedFile
         \<lparr>fs_files = [(''00000000000000aa'',
              \<lparr>sf_ID = ''00000000000000aa'', sf_data = Some buf, sf_encrypted = None,
               sf_Filename = ''a.txt'', sf_MimeType = ''text/plain'', sf_Size = 100,
               sf_CreatedAt = 0, sf_ExpiresAt = 1000\<rparr>)],
          fs_maxFileSize = 104857600, fs_expiry = 1000,
          fs_memory = Some \<lparr>allocated = 100, limit = 1048576\<rparr>\<rparr>
         \<lparr>efi_ID = ''00000000000000bb'', efi_Name = ''b.bin'', efi_MimeType = ''application/octet-stream'',
          efi_Size = 100, efi_Encrypted = Some ct\<rparr> 5)
      Some ''00000000000000bb''))
   = Some \<lparr>allocated = 0, limit = 1048576\<rparr>
   \<and> map fst (fs_files (snd (Delete
      (AddEncryptedFile
         \<lparr>fs_files = [(''00000000000000aa'',
              \<lparr>sf_ID = ''00000000000000aa'', sf_data = Some buf, sf_encrypted = None,
               sf_Filename = ''a.txt'', sf_MimeType = ''text/plain'', sf_Size = 100,
               sf_CreatedAt = 0, sf_ExpiresAt = 1000\<rparr>)],
          fs_maxFileSize = 104857600, fs_expiry = 1000,
          fs_memory = Some \<lparr>allocated = 100, limit = 1048576\<rparr>\<rparr>
         \<lparr>efi_ID = ''00000000000000bb'', efi_Name = ''b.bin'', efi_MimeType = ''application/octet-stream'',
          efi_Size = 100, efi_Encrypted = Some ct\<rparr> 5)
      Some ''00000000000000bb''))) = [''00000000000000aa'']"
  by (simp add: AddEncryptedFile_def Delete_def shredFile_def files_put_def files_delete_def
      mem_Free_def Free_def Let_def)

end
